theory Spec2Isabelle
  imports Complex_Main "HOL-Library.Monad_Syntax" "HOL-Library.Signed_Division"
    "HOL-Library.Char_ord" "HOL-Library.List_Lexorder"
begin

section \<open>Numbers, arrays and errors\<close>

text \<open>
  The page \<^verbatim>\<open>src/pages/structuretensor.vue\<close> computes with JavaScript numbers, which are
  IEEE doubles. Each of its three stages is modelled with the arithmetic that the
  statements about it need.

  The kernel stage, \<^verbatim>\<open>generateGaussianKernel\<close>, computes in doubles: every operation
  rounds its exact result to the nearest double, underflows to a subnormal number or to
  zero, and overflows to an infinity (the type \<open>double\<close> of the next section).
  \<^verbatim>\<open>Math.exp\<close>, whose values ECMAScript leaves to the implementation, is a parameter.

  The gradient stage, which only multiplies bytes by literals and adds, takes the
  rounding of each operation as a parameter \<open>fl\<close>, so that it can be read in exact
  arithmetic (\<open>fl = id\<close>) and in double arithmetic (\<open>fl = binary64\<close>); its values are far
  from overflow and from the subnormal numbers.

  The tensor stage and the display compute on a \<open>number\<close>: a real number, or \<open>None\<close> for
  a value that is not a finite number. That is \<^verbatim>\<open>NaN\<close>, which is what arithmetic makes of
  \<^verbatim>\<open>undefined\<close> (the result of reading an array outside its bounds) and of \<^verbatim>\<open>0 / 0\<close>, or an
  infinity, which these stages do not tell apart from \<^verbatim>\<open>NaN\<close>. \<open>None\<close> is absorbing: every
  sum, product and quotient with such an operand is \<open>None\<close>. The arithmetic of these
  stages on finite numbers is exact.
\<close>

type_synonym number = "real option"

definition nadd :: "number \<Rightarrow> number \<Rightarrow> number" where
  "nadd a b = do { x \<leftarrow> a; y \<leftarrow> b; Some (x + y) }"

definition nmul :: "number \<Rightarrow> number \<Rightarrow> number" where
  "nmul a b = do { x \<leftarrow> a; y \<leftarrow> b; Some (x * y) }"

definition ndiv :: "number \<Rightarrow> number \<Rightarrow> number" where
  "ndiv a b = do { x \<leftarrow> a; y \<leftarrow> b; if y = 0 then None else Some (x / y) }"

text \<open>
  Reading \<^verbatim>\<open>xs[i]\<close>: the element, or \<^verbatim>\<open>undefined\<close> (\<open>None\<close>) when \<open>i\<close> is not an index
  of the array. Used as a number, \<^verbatim>\<open>undefined\<close> is \<^verbatim>\<open>NaN\<close>.
\<close>

definition js_at :: "'a list \<Rightarrow> int \<Rightarrow> 'a option" where
  "js_at xs i = (if 0 \<le> i \<and> i < int (length xs) then Some (xs ! nat i) else None)"

definition num_at :: "number list \<Rightarrow> int \<Rightarrow> number" where
  "num_at xs i = (case js_at xs i of None \<Rightarrow> None | Some v \<Rightarrow> v)"

text \<open>
  The exceptions of the page: \<^verbatim>\<open>throw new Error(msg)\<close>, and the \<^verbatim>\<open>TypeError\<close> of a method
  call on \<^verbatim>\<open>undefined\<close>.
\<close>

datatype error = Error string | TypeError

section \<open>IEEE double arithmetic\<close>

text \<open>
  Rounding to the nearest double, ties to the even significand: a real \<open>x\<close> with
  \<open>2\<^sup>k \<le> \<bar>x\<bar> < 2\<^sup>k\<^sup>+\<^sup>1\<close> is rounded to a multiple of \<open>2\<^sup>k\<^sup>-\<^sup>5\<^sup>2\<close>. In \<open>binary64\<close> the exponent
  range is not bounded: it is the rounding of the gradient stage, whose values are far
  from overflow and from the subnormal numbers.
\<close>

definition round_to_even :: "real \<Rightarrow> int" where
  "round_to_even x =
     (let n = \<lfloor>x\<rfloor>; r = x - of_int n
      in if r < 1 / 2 then n else if 1 / 2 < r then n + 1 else if even n then n else n + 1)"

definition binary64 :: "real \<Rightarrow> real" where
  "binary64 x =
     (if x = 0 then 0
      else let e = \<lfloor>log 2 \<bar>x\<bar>\<rfloor> - 52
           in of_int (round_to_even (x / 2 powi e)) * 2 powi e)"

text \<open>
  The doubles of the kernel stage: a finite value, one of the two infinities, or
  \<^verbatim>\<open>NaN\<close>. \<open>Finite 0\<close> stands for both zeros.
\<close>

datatype double = Finite real | PlusInfinity | MinusInfinity | NaN

text \<open>
  The nearest double with the whole exponent range: below \<open>2\<^sup>-\<^sup>1\<^sup>0\<^sup>2\<^sup>2\<close> the doubles are the
  multiples of \<open>2\<^sup>-\<^sup>1\<^sup>0\<^sup>7\<^sup>4\<close> (the subnormal numbers, and zero); a result that rounds to
  \<open>2\<^sup>1\<^sup>0\<^sup>2\<^sup>4\<close> or beyond is the infinity of its sign.
\<close>

definition nearest_double :: "real \<Rightarrow> real" where
  "nearest_double x =
     (if x = 0 then 0
      else let e = max (\<lfloor>log 2 \<bar>x\<bar>\<rfloor> - 52) (- 1074)
           in of_int (round_to_even (x / 2 powi e)) * 2 powi e)"

definition double_of_real :: "real \<Rightarrow> double" where
  "double_of_real x =
     (let r = nearest_double x
      in if 2 ^ 1024 \<le> r then PlusInfinity
         else if r \<le> - (2 ^ 1024) then MinusInfinity
         else Finite r)"

definition signed_infinity :: "bool \<Rightarrow> double" where
  "signed_infinity negative = (if negative then MinusInfinity else PlusInfinity)"

text \<open>
  The operations \<^verbatim>\<open>+\<close>, \<^verbatim>\<open>*\<close> and \<^verbatim>\<open>/\<close> on doubles; the equations of each function are
  read in their order. A zero divisor is taken as the positive zero, so that a finite
  number other than zero divided by zero is the infinity of its sign: the divisors of
  the page are products of a positive number and a square, and a sum that starts from
  the positive zero, none of which is the negative zero.
\<close>

fun double_add :: "double \<Rightarrow> double \<Rightarrow> double" where
  "double_add (Finite x) (Finite y) = double_of_real (x + y)"
| "double_add NaN b = NaN"
| "double_add a NaN = NaN"
| "double_add PlusInfinity MinusInfinity = NaN"
| "double_add MinusInfinity PlusInfinity = NaN"
| "double_add PlusInfinity b = PlusInfinity"
| "double_add MinusInfinity b = MinusInfinity"
| "double_add (Finite x) b = b"

fun double_mul :: "double \<Rightarrow> double \<Rightarrow> double" where
  "double_mul (Finite x) (Finite y) = double_of_real (x * y)"
| "double_mul NaN b = NaN"
| "double_mul a NaN = NaN"
| "double_mul (Finite x) PlusInfinity = (if x = 0 then NaN else signed_infinity (x < 0))"
| "double_mul (Finite x) MinusInfinity = (if x = 0 then NaN else signed_infinity (0 < x))"
| "double_mul PlusInfinity (Finite y) = (if y = 0 then NaN else signed_infinity (y < 0))"
| "double_mul MinusInfinity (Finite y) = (if y = 0 then NaN else signed_infinity (0 < y))"
| "double_mul PlusInfinity PlusInfinity = PlusInfinity"
| "double_mul PlusInfinity MinusInfinity = MinusInfinity"
| "double_mul MinusInfinity PlusInfinity = MinusInfinity"
| "double_mul MinusInfinity MinusInfinity = PlusInfinity"

fun double_div :: "double \<Rightarrow> double \<Rightarrow> double" where
  "double_div (Finite x) (Finite y) =
     (if y = 0 then (if x = 0 then NaN else signed_infinity (x < 0))
      else double_of_real (x / y))"
| "double_div NaN b = NaN"
| "double_div a NaN = NaN"
| "double_div (Finite x) b = Finite 0"
| "double_div PlusInfinity (Finite y) = signed_infinity (y < 0)"
| "double_div MinusInfinity (Finite y) = signed_infinity (0 \<le> y)"
| "double_div a b = NaN"

text \<open>\<^verbatim>\<open>Math.PI\<close> is the double nearest to \<open>\<pi>\<close>, \<open>884279719003555 / 2\<^sup>4\<^sup>8\<close>.\<close>

definition Math_PI :: real where
  "Math_PI = 884279719003555 / 2 ^ 48"

text \<open>
  A double as a number of the tensor stage, which does not tell the infinities apart
  from \<^verbatim>\<open>NaN\<close>.
\<close>

definition number_of_double :: "double \<Rightarrow> number" where
  "number_of_double d = (case d of Finite x \<Rightarrow> Some x | _ \<Rightarrow> None)"

section \<open>The Gaussian kernel\<close>

text \<open>
  \<^verbatim>\<open>generateGaussianKernel(size, sigma)\<close>, lines 75 to 99, in double arithmetic. The only
  check is \<^verbatim>\<open>size % 2 === 0\<close>; the remainder \<^verbatim>\<open>%\<close> takes the sign of the dividend, as \<open>smod\<close>
  does. \<open>gaussian_value\<close> is the expression of lines 89 to 91 with its operations in the
  order of the source: \<^verbatim>\<open>2 * Math.PI * sigma2\<close> multiplies from the left, and the minus
  sign applies to the sum of the squares before the division. The offsets \<open>dx\<close> and \<open>dy\<close>
  and the sum of their squares are integers, which the page computes without rounding
  (they are far below \<open>2\<^sup>5\<^sup>3\<close> for every size whose table fits an array). The two loops push
  \<open>size * size\<close> values row by row (\<open>weights\<close>) and add each to \<^verbatim>\<open>sum\<close> (\<open>sm\<close>), which starts
  from 0; the result is the list of the values divided by \<^verbatim>\<open>sum\<close>.

  With \<open>sigma = 0\<close>, and with a sigma whose square underflows to 0, the value at the
  centre is \<^verbatim>\<open>Infinity * Math.exp(NaN)\<close>, which is \<^verbatim>\<open>NaN\<close> for the \<^verbatim>\<open>Math.exp\<close> of ECMAScript,
  and every sum and quotient with \<^verbatim>\<open>NaN\<close> is \<^verbatim>\<open>NaN\<close>.
\<close>

definition gaussian_value :: "(double \<Rightarrow> double) \<Rightarrow> double \<Rightarrow> int \<Rightarrow> int \<Rightarrow> double" where
  "gaussian_value Math_exp sigma2 dx dy =
     double_mul (double_div (Finite 1) (double_mul (double_mul (Finite 2) (Finite Math_PI)) sigma2))
                (Math_exp (double_div (Finite (- of_int (dx * dx + dy * dy)))
                                      (double_mul (Finite 2) sigma2)))"

definition kernel_values :: "(double \<Rightarrow> double) \<Rightarrow> int \<Rightarrow> real \<Rightarrow> double list" where
  "kernel_values Math_exp ksize sigma =
     (let mean = ksize div 2;
          sigma2 = double_mul (Finite sigma) (Finite sigma)
      in concat (map (\<lambda>y. map (\<lambda>x. gaussian_value Math_exp sigma2 (x - mean) (y - mean))
                                [0..ksize - 1])
                     [0..ksize - 1]))"

definition generateGaussianKernel ::
  "(double \<Rightarrow> double) \<Rightarrow> int \<Rightarrow> real \<Rightarrow> error + double list" where
  "generateGaussianKernel Math_exp ksize sigma =
     (if ksize smod 2 = 0 then Inl (Error ''Size must be an odd integer.'')
      else let weights = kernel_values Math_exp ksize sigma;
               sm = foldl double_add (Finite 0) weights
           in Inr (map (\<lambda>v. double_div v sm) weights))"

section \<open>The gradient field\<close>

text \<open>
  \<^verbatim>\<open>computeGradients()\<close>, lines 102 to 149. The canvas gives the width, the height and
  the RGBA bytes \<^verbatim>\<open>data\<close> (a \<^verbatim>\<open>Uint8ClampedArray\<close>). Every operation of the stage
  rounds its exact result with \<open>fl\<close>; the literals \<^verbatim>\<open>0.3\<close>, \<^verbatim>\<open>0.59\<close> and \<^verbatim>\<open>0.11\<close> are the
  roundings of the decimal fractions.
\<close>

definition nfl :: "(real \<Rightarrow> real) \<Rightarrow> number \<Rightarrow> number" where
  "nfl fl a = map_option fl a"

definition sobelX :: "real list" where
  "sobelX = [-1, 0, 1, -2, 0, 2, -1, 0, 1]"

definition sobelY :: "real list" where
  "sobelY = [-1, -2, -1, 0, 0, 0, 1, 2, 1]"

definition getGray :: "(real \<Rightarrow> real) \<Rightarrow> int \<Rightarrow> nat list \<Rightarrow> int \<Rightarrow> int \<Rightarrow> number" where
  "getGray fl width data x y =
     (let idx = (y * width + x) * 4
      in do { r \<leftarrow> js_at data idx;
              g \<leftarrow> js_at data (idx + 1);
              b \<leftarrow> js_at data (idx + 2);
              Some (fl (fl (fl (fl (3 / 10) * real r) + fl (fl (59 / 100) * real g))
                        + fl (fl (11 / 100) * real b))) })"

text \<open>
  Two nested loops, \<open>ky\<close> outside and \<open>kx\<close> inside, both from \<open>-h\<close> to \<open>h\<close>, visit the
  offsets \<open>(ky, kx)\<close> in this order.
\<close>

definition kernel_offsets :: "int \<Rightarrow> (int \<times> int) list" where
  "kernel_offsets h = concat (map (\<lambda>ky. map (\<lambda>kx. (ky, kx)) [- h..h]) [- h..h])"

text \<open>
  The two inner loops (lines 128 to 139): \<^verbatim>\<open>gx\<close> and \<^verbatim>\<open>gy\<close> after the nine steps
  \<^verbatim>\<open>gx += pixelGray * sobelX[kernelIndex]\<close>, \<^verbatim>\<open>gy += pixelGray * sobelY[kernelIndex]\<close>.
\<close>

definition sobel_step ::
  "(real \<Rightarrow> real) \<Rightarrow> int \<Rightarrow> nat list \<Rightarrow> int \<Rightarrow> int \<Rightarrow> int \<times> int \<Rightarrow> number \<times> number \<Rightarrow> number \<times> number" where
  "sobel_step fl width data x y = (\<lambda>(ky, kx) (gx, gy).
     let pixelGray = getGray fl width data (x + kx) (y + ky);
         kernelIndex = (ky + 1) * 3 + (kx + 1)
     in (nfl fl (nadd gx (nfl fl (nmul pixelGray (js_at sobelX kernelIndex)))),
         nfl fl (nadd gy (nfl fl (nmul pixelGray (js_at sobelY kernelIndex))))))"

definition sobel_at :: "(real \<Rightarrow> real) \<Rightarrow> int \<Rightarrow> nat list \<Rightarrow> int \<Rightarrow> int \<Rightarrow> number \<times> number" where
  "sobel_at fl width data x y =
     fold (sobel_step fl width data x y) (kernel_offsets 1) (Some 0, Some 0)"

text \<open>
  The assignment \<^verbatim>\<open>xs[i] = v\<close>: inside the array it replaces the element; past the end it
  extends the array, leaving holes that read as \<^verbatim>\<open>undefined\<close>; a negative \<open>i\<close> is not an
  index and leaves the elements as they are.
\<close>

definition js_set :: "number list \<Rightarrow> int \<Rightarrow> number \<Rightarrow> number list" where
  "js_set xs i v =
     (if i < 0 then xs
      else if i < int (length xs) then xs[nat i := v]
      else xs @ replicate (nat i - length xs) None @ [v])"

definition gradient_step ::
  "(real \<Rightarrow> real) \<Rightarrow> int \<Rightarrow> nat list \<Rightarrow> int \<times> int \<Rightarrow> number list \<times> number list
     \<Rightarrow> number list \<times> number list" where
  "gradient_step fl width data = (\<lambda>(y, x) (Ix, Iy).
     let (gx, gy) = sobel_at fl width data x y;
         index = y * width + x
     in (js_set Ix index gx, js_set Iy index gy))"

text \<open>
  The arrays \<^verbatim>\<open>Ix\<close> and \<^verbatim>\<open>Iy\<close> at line 148: \<open>width * height\<close> zeros, overwritten at the
  pixels \<open>1 \<le> y < height - 1\<close>, \<open>1 \<le> x < width - 1\<close>, row by row.
\<close>

definition interior_pixels :: "nat \<Rightarrow> nat \<Rightarrow> (int \<times> int) list" where
  "interior_pixels width height =
     concat (map (\<lambda>y. map (\<lambda>x. (y, x)) [1..int width - 2]) [1..int height - 2])"

definition gradient_arrays ::
  "(real \<Rightarrow> real) \<Rightarrow> nat \<Rightarrow> nat \<Rightarrow> nat list \<Rightarrow> number list \<times> number list" where
  "gradient_arrays fl width height data =
     fold (gradient_step fl (int width) data) (interior_pixels width height)
          (replicate (width * height) (Some 0), replicate (width * height) (Some 0))"

section \<open>The state of the page\<close>

text \<open>
  The module keeps the canvas, the two slider values and \<^verbatim>\<open>gradients = { Ix, Iy }\<close>, two
  references to arrays. Arrays are objects: \<open>heap\<close> gives the elements of every array
  by its reference, and \<open>next_ref\<close> is the first reference not yet in use. \<^verbatim>\<open>lambda1\<close>
  and \<^verbatim>\<open>lambda2\<close> are the two strings the page displays.
\<close>

type_synonym ref = nat

record state =
  canvas_width :: nat
  canvas_height :: nat
  kernelSize :: int
  kernelSigma :: real
  heap :: "ref \<Rightarrow> number list"
  next_ref :: ref
  gradients_Ix :: ref
  gradients_Iy :: ref
  lambda1 :: string
  lambda2 :: string

text \<open>A new array object: \<^verbatim>\<open>new Array(...)\<close>, an array literal, the result of \<^verbatim>\<open>map\<close>.\<close>

definition new_array :: "number list \<Rightarrow> state \<Rightarrow> ref \<times> state" where
  "new_array xs st =
     (next_ref st, st\<lparr>heap := (heap st)(next_ref st := xs), next_ref := Suc (next_ref st)\<rparr>)"

text \<open>
  \<^verbatim>\<open>xs.map((v, i) => f(v, i))\<close> reads the array \<open>r\<close> and returns a new array; the array
  \<open>r\<close> keeps its elements.
\<close>

definition array_map :: "(number \<Rightarrow> int \<Rightarrow> number) \<Rightarrow> ref \<Rightarrow> state \<Rightarrow> ref \<times> state" where
  "array_map f r st =
     new_array (map (\<lambda>(v, i). f v (int i)) (zip (heap st r) [0..<length (heap st r)])) st"

text \<open>\<^verbatim>\<open>computeGradients()\<close> stores the two arrays and makes \<^verbatim>\<open>gradients\<close> refer to them.\<close>

definition computeGradients :: "(real \<Rightarrow> real) \<Rightarrow> nat list \<Rightarrow> state \<Rightarrow> state" where
  "computeGradients fl data st =
     (let (Ix, Iy) = gradient_arrays fl (canvas_width st) (canvas_height st) data;
          (rx, st1) = new_array Ix st;
          (ry, st2) = new_array Iy st1
      in st2\<lparr>gradients_Ix := rx, gradients_Iy := ry\<rparr>)"

text \<open>The arrays \<^verbatim>\<open>gradients.Ix\<close> and \<^verbatim>\<open>gradients.Iy\<close> of a state.\<close>

definition Ix_array :: "state \<Rightarrow> number list" where
  "Ix_array st = heap st (gradients_Ix st)"

definition Iy_array :: "state \<Rightarrow> number list" where
  "Iy_array st = heap st (gradients_Iy st)"

text \<open>
  \<^verbatim>\<open>gaussianKernel\<close> is a computed value of the two sliders. Reading it runs
  \<^verbatim>\<open>generateGaussianKernel\<close> on the current size and sigma and gives the kernel, or throws
  what \<^verbatim>\<open>generateGaussianKernel\<close> throws. With an odd size every read gives this kernel.
  With an even size this is the first read after the page is loaded or a slider has
  changed; what the library Vue makes of later reads of a computed value whose function
  has thrown is not part of the page and not modelled, and no statement below depends
  on which exception a read throws.
\<close>

definition gaussianKernel :: "(double \<Rightarrow> double) \<Rightarrow> state \<Rightarrow> error + number list" where
  "gaussianKernel Math_exp st =
     (case generateGaussianKernel Math_exp (kernelSize st) (kernelSigma st) of
        Inl e \<Rightarrow> Inl e
      | Inr weights \<Rightarrow> Inr (map number_of_double weights))"

section \<open>The structure tensor at a point\<close>

text \<open>
  \<^verbatim>\<open>applyGaussian(x, y, componentArray)\<close>, lines 159 to 172: one step of the two loops,
  and the loops over \<open>ky\<close> and \<open>kx\<close> from \<open>- halfKernel\<close> to \<open>halfKernel\<close>. The step reads
  \<^verbatim>\<open>gaussianKernel.value\<close>, which throws when the kernel size is even.
\<close>

definition applyGaussian_step ::
  "(double \<Rightarrow> double) \<Rightarrow> state \<Rightarrow> int \<Rightarrow> int \<Rightarrow> number list \<Rightarrow> int \<times> int \<Rightarrow> error + number \<Rightarrow> error + number" where
  "applyGaussian_step Math_exp st x y componentArray = (\<lambda>(ky, kx) acc.
     case acc of
       Inl e \<Rightarrow> Inl e
     | Inr sm \<Rightarrow>
         let halfKernel = kernelSize st div 2;
             pixelX = min (max (x + kx) 0) (int (canvas_width st) - 1);
             pixelY = min (max (y + ky) 0) (int (canvas_height st) - 1);
             kernelIndex = (ky + halfKernel) * kernelSize st + (kx + halfKernel);
             pixelIndex = pixelY * int (canvas_width st) + pixelX
         in case gaussianKernel Math_exp st of
              Inl e \<Rightarrow> Inl e
            | Inr weights \<Rightarrow>
                Inr (nadd sm (nmul (num_at componentArray pixelIndex) (num_at weights kernelIndex))))"

definition applyGaussian ::
  "(double \<Rightarrow> double) \<Rightarrow> state \<Rightarrow> int \<Rightarrow> int \<Rightarrow> number list \<Rightarrow> error + number" where
  "applyGaussian Math_exp st x y componentArray =
     (let halfKernel = kernelSize st div 2
      in fold (applyGaussian_step Math_exp st x y componentArray) (kernel_offsets halfKernel) (Inr (Some 0)))"

text \<open>
  For the statements about \<^verbatim>\<open>applyGaussian\<close>: the two indices that the step for the
  offset \<open>(ky, kx)\<close> reads, \<^verbatim>\<open>pixelIndex\<close> in the component array and \<^verbatim>\<open>kernelIndex\<close> in
  the kernel.
\<close>

definition sample_index :: "state \<Rightarrow> int \<Rightarrow> int \<Rightarrow> int \<times> int \<Rightarrow> int" where
  "sample_index st x y = (\<lambda>(ky, kx).
     min (max (y + ky) 0) (int (canvas_height st) - 1) * int (canvas_width st)
     + min (max (x + kx) 0) (int (canvas_width st) - 1))"

definition weight_index :: "state \<Rightarrow> int \<times> int \<Rightarrow> int" where
  "weight_index st = (\<lambda>(ky, kx).
     (ky + kernelSize st div 2) * kernelSize st + (kx + kernelSize st div 2))"

text \<open>
  The gradient arrays of a state are two arrays in use that hold one number for every
  pixel of the canvas, none of them \<^verbatim>\<open>NaN\<close>, as they are after \<^verbatim>\<open>computeGradients\<close> has run
  on the canvas.
\<close>

definition gradients_ok :: "state \<Rightarrow> bool" where
  "gradients_ok st \<longleftrightarrow>
     gradients_Ix st < next_ref st \<and> gradients_Iy st < next_ref st \<and>
     length (Ix_array st) = canvas_width st * canvas_height st \<and>
     length (Iy_array st) = canvas_width st * canvas_height st \<and>
     None \<notin> set (Ix_array st) \<and> None \<notin> set (Iy_array st)"

text \<open>
  The sum that \<^verbatim>\<open>applyGaussian(x, y, componentArray)\<close> computes from the numbers \<open>cs\<close> of
  the component array and the weights \<open>ws\<close> of the kernel: over the offsets, the
  component at the clamped pixel times the weight of the offset.
\<close>

definition smoothed :: "state \<Rightarrow> int \<Rightarrow> int \<Rightarrow> real list \<Rightarrow> real list \<Rightarrow> real" where
  "smoothed st x y cs ws =
     (\<Sum>q\<leftarrow>kernel_offsets (kernelSize st div 2).
        cs ! nat (sample_index st x y q) * ws ! nat (weight_index st q))"

text \<open>
  \<open>keeps_arrays st st'\<close>: the state \<open>st'\<close> has the arrays of \<open>st\<close> with their elements,
  perhaps new arrays beside them, and \<^verbatim>\<open>gradients\<close> refers to the arrays it referred to.
\<close>

definition keeps_arrays :: "state \<Rightarrow> state \<Rightarrow> bool" where
  "keeps_arrays st st' \<longleftrightarrow>
     (\<forall>r < next_ref st. heap st' r = heap st r) \<and> next_ref st \<le> next_ref st' \<and>
     gradients_Ix st' = gradients_Ix st \<and> gradients_Iy st' = gradients_Iy st"

text \<open>
  Lines 175 to 195 of \<^verbatim>\<open>computeEigenvectors(x, y)\<close>: the three smoothed products and the
  matrix \<^verbatim>\<open>[[Ixx, Ixy], [Ixy, Iyy]]\<close>. Each product array is the new array of a \<^verbatim>\<open>map\<close>.
  The result is the matrix or the exception, and the state left behind.
\<close>

definition structureTensor ::
  "(double \<Rightarrow> double) \<Rightarrow> state \<Rightarrow> int \<Rightarrow> int \<Rightarrow> (error + number list list) \<times> state" where
  "structureTensor Math_exp st x y =
     (let (a, st1) = array_map (\<lambda>v i. nmul v v) (gradients_Ix st) st
      in case applyGaussian Math_exp st1 x y (heap st1 a) of
           Inl e \<Rightarrow> (Inl e, st1)
         | Inr Ixx \<Rightarrow>
     (let (b, st2) = array_map (\<lambda>v i. nmul v v) (gradients_Iy st1) st1
      in case applyGaussian Math_exp st2 x y (heap st2 b) of
           Inl e \<Rightarrow> (Inl e, st2)
         | Inr Iyy \<Rightarrow>
     (let (c, st3) = array_map (\<lambda>v i. nmul v (num_at (heap st2 (gradients_Iy st2)) i))
                               (gradients_Ix st2) st2
      in case applyGaussian Math_exp st3 x y (heap st3 c) of
           Inl e \<Rightarrow> (Inl e, st3)
         | Inr Ixy \<Rightarrow> (Inr [[Ixx, Ixy], [Ixy, Iyy]], st3))))"

text \<open>
  \<^verbatim>\<open>eigs\<close> is a function of the package mathjs, which is not part of the page: it is a
  parameter here. Its result is a list of eigenvalues, each with its eigenvector:
  \<^verbatim>\<open>vec.value\<close>, and \<^verbatim>\<open>vec.vector.get([0])\<close> with \<^verbatim>\<open>vec.vector.get([1])\<close>.
\<close>

record eigenpair =
  eig_value :: number
  eig_vector :: "number \<times> number"

definition computeEigenvectors ::
  "(double \<Rightarrow> double) \<Rightarrow> (number list list \<Rightarrow> eigenpair list) \<Rightarrow> state \<Rightarrow> int \<Rightarrow> int
     \<Rightarrow> (error + eigenpair list) \<times> state" where
  "computeEigenvectors Math_exp eigs st x y =
     (case structureTensor Math_exp st x y of
        (Inl e, st') \<Rightarrow> (Inl e, st')
      | (Inr M, st') \<Rightarrow> (Inr (eigs M), st'))"

section \<open>The display\<close>

text \<open>
  \<^verbatim>\<open>Number.prototype.toFixed()\<close> with no digits: the sign, then the integer nearest to the
  magnitude (the larger of two) in decimal digits; from \<open>10\<^sup>2\<^sup>1\<close> on it is the string
  of the number. The string of a number, ECMAScript's \<^verbatim>\<open>Number::toString\<close>, is defined on
  doubles and is a parameter \<open>tostr\<close> here; the string of \<^verbatim>\<open>NaN\<close> is \<^verbatim>\<open>"NaN"\<close>.
\<close>

fun digits :: "nat \<Rightarrow> string" where
  "digits n = (if n < 10 then [char_of (48 + n)] else digits (n div 10) @ [char_of (48 + n mod 10)])"

declare digits.simps [simp del]

definition js_toString :: "(real \<Rightarrow> string) \<Rightarrow> number \<Rightarrow> string" where
  "js_toString tostr v = (case v of None \<Rightarrow> ''NaN'' | Some x \<Rightarrow> tostr x)"

definition toFixed :: "(real \<Rightarrow> string) \<Rightarrow> number \<Rightarrow> string" where
  "toFixed tostr v =
     (case v of
        None \<Rightarrow> ''NaN''
      | Some x \<Rightarrow>
          (if x < 0 then ''-'' else []) @
          (if 10 ^ 21 \<le> \<bar>x\<bar> then tostr \<bar>x\<bar> else digits (nat \<lfloor>\<bar>x\<bar> + 1 / 2\<rfloor>)))"

text \<open>
  On an integer below \<open>10\<^sup>2\<^sup>1\<close> in magnitude \<^verbatim>\<open>Number::toString\<close> gives the sign and the
  decimal digits. \<open>integer_string\<close> is that string; the examples below use it on
  integers only.
\<close>

definition integer_string :: "real \<Rightarrow> string" where
  "integer_string x = (if x < 0 then ''-'' else []) @ digits (nat \<lfloor>\<bar>x\<bar>\<rfloor>)"

text \<open>
  \<^verbatim>\<open>xs.sort()\<close> with no comparator sorts the array in place, ascending in the strings of
  its elements compared by code units, and keeps the order of equal strings. The order
  on \<open>string\<close> is the lexicographic order of the character codes.
\<close>

definition array_sort :: "(real \<Rightarrow> string) \<Rightarrow> ref \<Rightarrow> state \<Rightarrow> state" where
  "array_sort tostr r st = st\<lparr>heap := (heap st)(r := sort_key (js_toString tostr) (heap st r))\<rparr>"

text \<open>
  \<^verbatim>\<open>drawOverlay(x, y)\<close> after its call of \<^verbatim>\<open>computeEigenvectors\<close>, lines 213 to 242. The
  array \<^verbatim>\<open>eigenvalues\<close> is the new array of a \<^verbatim>\<open>map\<close>; both calls of \<^verbatim>\<open>sort\<close> sort this one
  array. Reading \<^verbatim>\<open>gaussianKernel.value\<close> for the kernel overlay throws when the size is
  even. Of the drawing only the end point of each arrow, the arguments of \<^verbatim>\<open>lineTo\<close>,
  is kept: it is the result.
\<close>

definition drawOverlay_render ::
  "(double \<Rightarrow> double) \<Rightarrow> (real \<Rightarrow> string) \<Rightarrow> eigenpair list \<Rightarrow> state \<Rightarrow> int \<Rightarrow> int
     \<Rightarrow> (error + (number \<times> number) list) \<times> state" where
  "drawOverlay_render Math_exp tostr eigenvectors st x y =
     (let (eigenvalues, st1) =
            new_array (map (\<lambda>vec. ndiv (eig_value vec) (Some 1000)) eigenvectors) st;
          st2 = array_sort tostr eigenvalues st1
      in case js_at (heap st2 eigenvalues) 1 of
           None \<Rightarrow> (Inl TypeError, st2)
         | Some v1 \<Rightarrow>
     (let st3 = array_sort tostr eigenvalues (st2\<lparr>lambda1 := toFixed tostr v1\<rparr>)
      in case js_at (heap st3 eigenvalues) 0 of
           None \<Rightarrow> (Inl TypeError, st3)
         | Some v0 \<Rightarrow>
     (let st4 = st3\<lparr>lambda2 := toFixed tostr v0\<rparr>
      in case gaussianKernel Math_exp st4 of
           Inl e \<Rightarrow> (Inl e, st4)
         | Inr weights \<Rightarrow>
             (Inr (map (\<lambda>(vec, i).
                         (nadd (Some (of_int x))
                               (nmul (fst (eig_vector vec)) (num_at (heap st4 eigenvalues) (int i))),
                          nadd (Some (of_int y))
                               (nmul (snd (eig_vector vec)) (num_at (heap st4 eigenvalues) (int i)))))
                       (zip eigenvectors [0..<length eigenvectors])),
              st4))))"

definition drawOverlay ::
  "(double \<Rightarrow> double) \<Rightarrow> (number list list \<Rightarrow> eigenpair list) \<Rightarrow> (real \<Rightarrow> string) \<Rightarrow> state \<Rightarrow> int \<Rightarrow> int
     \<Rightarrow> (error + (number \<times> number) list) \<times> state" where
  "drawOverlay Math_exp eigs tostr st x y =
     (case computeEigenvectors Math_exp eigs st x y of
        (Inl e, st') \<Rightarrow> (Inl e, st')
      | (Inr eigenvectors, st') \<Rightarrow> drawOverlay_render Math_exp tostr eigenvectors st' x y)"

section \<open>The eigensolver of the specification\<close>

text \<open>
  Modelled from the spec: the eigensolver \<open>SymmetricEigensolver2x2\<close>. The page calls
  \<^verbatim>\<open>eigs\<close> of the package mathjs, whose code is not among the sources. Section 4.5 of
  the specification gives a closed form for the matrix \<open>[[a, b], [b, d]]\<close>: the trace,
  the determinant, the discriminant clamped at 0, the two eigenvalues
  \<open>trace / 2 + disc\<close> and \<open>trace / 2 - disc\<close>; for \<open>b \<noteq> 0\<close> the eigenvector of \<open>\<lambda>\<close> is
  \<open>(b, \<lambda> - a)\<close> normalised, for \<open>b = 0\<close> it is \<open>(1, 0)\<close> for the eigenvalue matching \<open>a\<close>
  and \<open>(0, 1)\<close> for the one matching \<open>d\<close>. The arithmetic is exact.
\<close>

text \<open>Modelled from the spec: a vector divided by its Euclidean length.\<close>

definition normalize :: "real \<times> real \<Rightarrow> real \<times> real" where
  "normalize v = (fst v / sqrt ((fst v)\<^sup>2 + (snd v)\<^sup>2), snd v / sqrt ((fst v)\<^sup>2 + (snd v)\<^sup>2))"

text \<open>
  Modelled from the spec: the two pairs of an eigenvalue and its unit eigenvector, the
  larger eigenvalue first.
\<close>

definition SymmetricEigensolver2x2 :: "real \<Rightarrow> real \<Rightarrow> real \<Rightarrow> (real \<times> real \<times> real) list" where
  "SymmetricEigensolver2x2 a b d =
     (let tr = a + d;
          det = a * d - b\<^sup>2;
          disc = sqrt (max (tr\<^sup>2 / 4 - det) 0);
          l1 = tr / 2 + disc;
          l2 = tr / 2 - disc
      in if b \<noteq> 0 then [(l1, normalize (b, l1 - a)), (l2, normalize (b, l2 - a))]
         else if d \<le> a then [(l1, (1, 0)), (l2, (0, 1))]
         else [(l1, (0, 1)), (l2, (1, 0))])"

text \<open>
  Modelled from the spec: the eigensolver of the specification as a value for the
  parameter \<open>eigs\<close> of \<^verbatim>\<open>computeEigenvectors\<close>; a matrix with a \<^verbatim>\<open>NaN\<close> entry has no pairs.
\<close>

definition eigs_closed_form :: "number list list \<Rightarrow> eigenpair list" where
  "eigs_closed_form M =
     (case M of
        [[Some a, Some b], [Some b', Some d]] \<Rightarrow>
          map (\<lambda>(l, v). \<lparr>eig_value = Some l, eig_vector = (Some (fst v), Some (snd v))\<rparr>)
              (SymmetricEigensolver2x2 a b d)
      | _ \<Rightarrow> [])"

section \<open>The formulas of the specification\<close>

text \<open>
  The luminance \<open>L = 0.3R + 0.59G + 0.11B\<close> of the bytes \<open>r\<close>, \<open>g\<close>, \<open>b\<close> and of the pixel
  \<open>(x, y)\<close> of an RGBA buffer, each operation rounded by \<open>fl\<close>; with \<open>fl = id\<close> it is the
  formula in exact arithmetic. Then the two Sobel matrices with rows \<open>ky = -1, 0, 1\<close> and
  columns \<open>kx = -1, 0, 1\<close>, and a sum of terms added from the left with every partial
  sum rounded.
\<close>

definition gray_level :: "(real \<Rightarrow> real) \<Rightarrow> nat \<Rightarrow> nat \<Rightarrow> nat \<Rightarrow> real" where
  "gray_level fl r g b =
     fl (fl (fl (fl (3 / 10) * real r) + fl (fl (59 / 100) * real g)) + fl (fl (11 / 100) * real b))"

definition luminance :: "(real \<Rightarrow> real) \<Rightarrow> nat \<Rightarrow> nat list \<Rightarrow> int \<Rightarrow> int \<Rightarrow> real" where
  "luminance fl width data x y =
     (let p = nat (y * int width + x)
      in gray_level fl (data ! (4 * p)) (data ! (4 * p + 1)) (data ! (4 * p + 2)))"

definition rounded_sum :: "(real \<Rightarrow> real) \<Rightarrow> real list \<Rightarrow> real" where
  "rounded_sum fl ts = foldl (\<lambda>s t. fl (s + t)) 0 ts"

definition Sx :: "int \<Rightarrow> int \<Rightarrow> real" where
  "Sx kx ky = [[-1, 0, 1], [-2, 0, 2], [-1, 0, 1]] ! nat (ky + 1) ! nat (kx + 1)"

definition Sy :: "int \<Rightarrow> int \<Rightarrow> real" where
  "Sy kx ky = [[-1, -2, -1], [0, 0, 0], [1, 2, 1]] ! nat (ky + 1) ! nat (kx + 1)"

text \<open>
  An image of constant intensity: a buffer of \<open>width * height\<close> pixels that all have the
  red, green and blue bytes \<open>r\<close>, \<open>g\<close>, \<open>b\<close>.
\<close>

definition constant_image :: "nat \<Rightarrow> nat \<Rightarrow> nat list \<Rightarrow> nat \<Rightarrow> nat \<Rightarrow> nat \<Rightarrow> bool" where
  "constant_image width height data r g b \<longleftrightarrow>
     length data = 4 * width * height \<and>
     (\<forall>i < width * height. data ! (4 * i) = r \<and> data ! (4 * i + 1) = g \<and> data ! (4 * i + 2) = b)"

text \<open>
  On such an image every pixel has one luminance \<open>l\<close>, and the nine steps of a Sobel loop
  add its products with the nine entries of the kernel.
\<close>

definition sobel_sum :: "(real \<Rightarrow> real) \<Rightarrow> real \<Rightarrow> real list \<Rightarrow> real" where
  "sobel_sum fl l ks = rounded_sum fl (map (\<lambda>k. fl (l * k)) ks)"

section \<open>An example page\<close>

text \<open>
  A page before \<^verbatim>\<open>computeGradients\<close> has run: a canvas, the two slider values, no array.
  The example is a canvas of 10 by 10 pixels, all bytes 0 but the red byte of the pixel
  \<open>(0, 0)\<close>, which is 10, with the kernel size 3 and sigma 1; its gradients are computed
  in exact arithmetic.
\<close>

definition initial_state :: "nat \<Rightarrow> nat \<Rightarrow> int \<Rightarrow> real \<Rightarrow> state" where
  "initial_state w h ksize sigma =
     \<lparr>canvas_width = w, canvas_height = h, kernelSize = ksize, kernelSigma = sigma,
      heap = (\<lambda>r. []), next_ref = 0, gradients_Ix = 0, gradients_Iy = 0,
      lambda1 = ''0'', lambda2 = ''0''\<rparr>"

definition example_data :: "nat list" where
  "example_data = (replicate 400 0)[0 := 10]"

definition example_state :: state where
  "example_state = computeGradients id example_data (initial_state 10 10 3 1)"

text \<open>
  A \<^verbatim>\<open>Math.exp\<close> for the examples: the exponential rounded to the nearest double, with the
  values that ECMAScript fixes at the infinities and at \<^verbatim>\<open>NaN\<close>.
\<close>

definition rounded_exp :: "double \<Rightarrow> double" where
  "rounded_exp d =
     (case d of
        Finite x \<Rightarrow> double_of_real (exp x)
      | PlusInfinity \<Rightarrow> PlusInfinity
      | MinusInfinity \<Rightarrow> Finite 0
      | NaN \<Rightarrow> NaN)"

text \<open>
  A page of 2 by 2 pixels whose gradient arrays hold \<open>Ix = 2\<close> and \<open>Iy = 3\<close> at every pixel.
  No image gives these arrays, which are not 0 on the border; the statements about a
  query hold for every pair of gradient arrays.
\<close>

definition uniform_state :: state where
  "uniform_state =
     \<lparr>canvas_width = 2, canvas_height = 2, kernelSize = 3, kernelSigma = 1,
      heap = (\<lambda>r. [])(0 := replicate 4 (Some 2), 1 := replicate 4 (Some 3)), next_ref = 2,
      gradients_Ix = 0, gradients_Iy = 1, lambda1 = ''0'', lambda2 = ''0''\<rparr>"

text \<open>
  A result of \<^verbatim>\<open>eigs\<close>: the eigenvalues 5000 and 10000 of the matrix
  \<open>[[5000, 0], [0, 10000]]\<close> with their eigenvectors, the smaller eigenvalue first.
\<close>

definition example_eigenvectors :: "eigenpair list" where
  "example_eigenvectors =
     [\<lparr>eig_value = Some 5000, eig_vector = (Some 1, Some 0)\<rparr>,
      \<lparr>eig_value = Some 10000, eig_vector = (Some 0, Some 1)\<rparr>]"

section \<open>Properties of the double arithmetic\<close>

subsection \<open>Rounding to a double\<close>

lemma round_to_even_of_int [simp]: "round_to_even (of_int n) = n"
  by (simp add: round_to_even_def)

lemma floor_minus_nonint: "x \<notin> \<int> \<Longrightarrow> \<lfloor>- x\<rfloor> = - \<lfloor>x\<rfloor> - 1" for x :: real
proof (rule floor_unique)
  assume "x \<notin> \<int>"
  then have "of_int \<lfloor>x\<rfloor> \<noteq> x" by (metis Ints_of_int)
  then have "of_int \<lfloor>x\<rfloor> < x" using of_int_floor_le [of x] by linarith
  then show "of_int (- \<lfloor>x\<rfloor> - 1) \<le> - x" "- x < of_int (- \<lfloor>x\<rfloor> - 1) + 1"
    by simp_all linarith
qed

lemma round_to_even_minus: "round_to_even (- x) = - round_to_even x"
proof (cases "x \<in> \<int>")
  case True
  then obtain n where "x = of_int n" by (auto elim: Ints_cases)
  then show ?thesis by (simp flip: of_int_minus)
next
  case False
  show ?thesis
    unfolding round_to_even_def Let_def floor_minus_nonint [OF False]
    by (auto simp: algebra_simps)
qed

lemma round_to_even_bounds: "\<lfloor>x\<rfloor> \<le> round_to_even x" "round_to_even x \<le> \<lfloor>x\<rfloor> + 1"
  by (simp_all add: round_to_even_def Let_def)

lemma floor_log2_eq:
  assumes "2 powi k \<le> x" "x < 2 powi (k + 1)"
  shows "\<lfloor>log 2 x\<rfloor> = k"
proof -
  have "0 < (2::real) powi k" by simp
  then have x: "0 < x" using assms(1) by linarith
  have "(2::real) powr real_of_int k = 2 powi k" "(2::real) powr (real_of_int k + 1) = 2 powi (k + 1)"
    using powr_real_of_int' [of "2::real" k] powr_real_of_int' [of "2::real" "k + 1"] by simp_all
  then show ?thesis using assms x by (simp add: floor_log_eq_powr_iff)
qed

lemma binade_exists:
  assumes "0 < x"
  shows "2 powi \<lfloor>log 2 x\<rfloor> \<le> x \<and> x < 2 powi (\<lfloor>log 2 x\<rfloor> + 1)"
proof -
  have "(2::real) powr real_of_int k = 2 powi k" for k
    using powr_real_of_int' [of "2::real" k] by simp
  moreover have "2 powr (real_of_int \<lfloor>log 2 x\<rfloor>) \<le> x \<and> x < 2 powr (real_of_int \<lfloor>log 2 x\<rfloor> + 1)"
    using floor_log_eq_powr_iff [of x 2 "\<lfloor>log 2 x\<rfloor>"] assms by simp
  ultimately show ?thesis by (metis of_int_1 of_int_add)
qed

lemma binary64_binade:
  assumes "2 powi k \<le> \<bar>x\<bar>" "\<bar>x\<bar> < 2 powi (k + 1)"
  shows "binary64 x = of_int (round_to_even (x / 2 powi (k - 52))) * 2 powi (k - 52)"
proof -
  have "0 < (2::real) powi k" by simp
  then have "0 < \<bar>x\<bar>" using assms(1) by linarith
  then have "x \<noteq> 0" by simp
  then show ?thesis
    by (simp add: binary64_def Let_def floor_log2_eq [OF assms])
qed

lemma binary64_0 [simp]: "binary64 0 = 0"
  by (simp add: binary64_def)

lemma binary64_minus: "binary64 (- x) = - binary64 x"
  by (simp add: binary64_def Let_def round_to_even_minus)

lemma binary64_idem_pos:
  assumes "0 < x"
  shows "binary64 (binary64 x) = binary64 x"
proof -
  define k where "k = \<lfloor>log 2 x\<rfloor>"
  define e where "e = k - 52"
  define m where "m = round_to_even (x / 2 powi e)"
  have b: "2 powi k \<le> x" "x < 2 powi (k + 1)"
    using binade_exists [OF assms] by (simp_all add: k_def)
  have y: "binary64 x = of_int m * 2 powi e"
    using binary64_binade [of k x] b assms by (simp add: m_def e_def)
  have p: "(2::real) powi k = 2 ^ 52 * 2 powi e" "(2::real) powi (k + 1) = 2 ^ 53 * 2 powi e"
    by (simp_all add: e_def power_int_diff power_int_add)
  have q: "2 ^ 52 \<le> x / 2 powi e" "x / 2 powi e < 2 ^ 53"
    using b p by (simp_all add: field_simps)
  have "2 ^ 52 \<le> \<lfloor>x / 2 powi e\<rfloor>" "\<lfloor>x / 2 powi e\<rfloor> < 2 ^ 53"
    using q by (simp_all add: le_floor_iff floor_less_iff)
  then have m: "2 ^ 52 \<le> m" "m \<le> 2 ^ 53"
    using round_to_even_bounds [of "x / 2 powi e"] unfolding m_def by linarith+
  show ?thesis
  proof (cases "m = 2 ^ 53")
    case True
    have "binary64 x = 2 powi (k + 1)" by (simp add: y True p)
    moreover have "binary64 (2 powi (k + 1)) = of_int (round_to_even (2 powi (k + 1) / 2 powi (k + 1 - 52))) * 2 powi (k + 1 - 52)"
      by (rule binary64_binade) (simp_all add: power_int_add)
    moreover have "(2::real) powi (k + 1) / 2 powi (k + 1 - 52) = of_int (2 ^ 52)"
      by (simp add: power_int_diff power_int_add)
    ultimately show ?thesis
      by (simp only: round_to_even_of_int) (simp add: power_int_diff power_int_add)
  next
    case False
    with m have m': "m < 2 ^ 53" by simp
    have mr: "2 ^ 52 \<le> real_of_int m" "real_of_int m < 2 ^ 53"
      using m m' by simp_all
    then have "\<bar>real_of_int m * 2 powi e\<bar> = real_of_int m * 2 powi e"
      by (simp add: abs_mult)
    moreover have "2 ^ 52 * 2 powi e \<le> real_of_int m * 2 powi e"
      using mr(1) by (intro mult_right_mono) simp_all
    moreover have "real_of_int m * 2 powi e < 2 ^ 53 * 2 powi e"
      using mr(2) by (intro mult_strict_right_mono) simp_all
    ultimately have "2 powi k \<le> \<bar>real_of_int m * 2 powi e\<bar>"
      "\<bar>real_of_int m * 2 powi e\<bar> < 2 powi (k + 1)"
      by (simp_all only: p)
    then have "binary64 (of_int m * 2 powi e) = of_int (round_to_even (of_int m * 2 powi e / 2 powi e)) * 2 powi e"
      unfolding e_def by (rule binary64_binade)
    then show ?thesis by (simp add: y)
  qed
qed

lemma binary64_idem: "binary64 (binary64 x) = binary64 x"
proof -
  consider "x = 0" | "0 < x" | "x < 0" by linarith
  then show ?thesis
  proof cases
    case 3
    then have "binary64 (binary64 (- x)) = binary64 (- x)" by (intro binary64_idem_pos) simp
    then show ?thesis by (simp add: binary64_minus)
  qed (simp_all add: binary64_idem_pos)
qed

subsection \<open>The error of a rounding\<close>

text \<open>
  Rounding to an integer moves a real by at most a half, and keeps it between the
  integers around it.
\<close>

lemma round_to_even_error: "\<bar>real_of_int (round_to_even y) - y\<bar> \<le> 1 / 2"
  unfolding round_to_even_def Let_def by (auto simp: abs_le_iff)

lemma round_to_even_nonneg: "0 \<le> y \<Longrightarrow> 0 \<le> round_to_even y"
  by (simp add: round_to_even_def Let_def)

lemma round_to_even_le_int: "y \<le> of_int m \<Longrightarrow> round_to_even y \<le> m"
proof -
  assume a: "y \<le> of_int m"
  show ?thesis
  proof (cases "y = of_int m")
    case True
    then show ?thesis by (simp add: round_to_even_def)
  next
    case False
    with a have "y < of_int m" by simp
    then have "\<lfloor>y\<rfloor> < m" by (simp add: floor_less_iff)
    then show ?thesis by (simp add: round_to_even_def Let_def)
  qed
qed

text \<open>
  The error of rounding to a double: at most \<open>2\<^sup>-\<^sup>5\<^sup>3\<close> of the magnitude (for a normal
  number), or at most \<open>2\<^sup>-\<^sup>1\<^sup>0\<^sup>7\<^sup>5\<close>, half the spacing of the subnormal numbers.
\<close>

lemma nearest_double_error:
  "\<bar>nearest_double x - x\<bar> \<le> \<bar>x\<bar> / 2 ^ 53 + 2 powi (- 1075)"
proof (cases "x = 0")
  case True
  then show ?thesis by (simp add: nearest_double_def)
next
  case False
  define k where "k = \<lfloor>log 2 \<bar>x\<bar>\<rfloor>"
  define e where "e = max (k - 52) (- 1074)"
  have p: "0 < (2::real) powi e" by simp
  have n: "nearest_double x = of_int (round_to_even (x / 2 powi e)) * 2 powi e"
    using False by (simp add: nearest_double_def Let_def e_def k_def)
  have "nearest_double x - x = (of_int (round_to_even (x / 2 powi e)) - x / 2 powi e) * 2 powi e"
    using p by (simp add: n field_simps)
  then have "\<bar>nearest_double x - x\<bar> = \<bar>of_int (round_to_even (x / 2 powi e)) - x / 2 powi e\<bar> * 2 powi e"
    by (simp add: abs_mult)
  also have "\<dots> \<le> 1 / 2 * 2 powi e"
    using round_to_even_error [of "x / 2 powi e"] p by (intro mult_right_mono) simp_all
  finally have d: "\<bar>nearest_double x - x\<bar> \<le> 2 powi e / 2" by simp
  have b: "2 powi k \<le> \<bar>x\<bar>" using binade_exists [of "\<bar>x\<bar>"] False by (simp add: k_def)
  show ?thesis
  proof (cases "k - 52 \<le> - 1074")
    case True
    then have "e = - 1074" by (simp add: e_def)
    then have "(2::real) powi e / 2 = 2 powi (- 1075)"
      by (simp add: power_int_minus)
    then show ?thesis using d by (simp add: add_increasing)
  next
    case False
    then have "e = k - 52" by (simp add: e_def)
    then have "(2::real) powi e / 2 = 2 powi k / 2 ^ 53"
      by (simp add: power_int_diff)
    also have "\<dots> \<le> \<bar>x\<bar> / 2 ^ 53" using b by (simp add: divide_right_mono)
    finally show ?thesis using d by (simp add: add_increasing2)
  qed
qed

lemma nearest_double_bounds:
  assumes "0 \<le> x"
  shows "(1 - 1 / 2 ^ 53) * x - 2 powi (- 1075) \<le> nearest_double x"
    and "nearest_double x \<le> (1 + 1 / 2 ^ 53) * x + 2 powi (- 1075)"
  using nearest_double_error [of x] assms by (simp_all add: abs_le_iff algebra_simps)

lemma nearest_double_nonneg: "0 \<le> x \<Longrightarrow> 0 \<le> nearest_double x"
  by (simp add: nearest_double_def Let_def round_to_even_nonneg)

lemma nearest_double_0 [simp]: "nearest_double 0 = 0"
  by (simp add: nearest_double_def)

lemma nearest_double_minus: "nearest_double (- x) = - nearest_double x"
  by (simp add: nearest_double_def Let_def round_to_even_minus)

lemma nearest_double_nonpos: "x \<le> 0 \<Longrightarrow> nearest_double x \<le> 0"
  using nearest_double_nonneg [of "- x"] by (simp add: nearest_double_minus)

lemma nearest_double_le_1:
  assumes "0 \<le> x" "x \<le> 1"
  shows "nearest_double x \<le> 1"
proof (cases "x = 0")
  case True
  then show ?thesis by simp
next
  case False
  with assms have x: "0 < x" by simp
  define k where "k = \<lfloor>log 2 \<bar>x\<bar>\<rfloor>"
  define e where "e = max (k - 52) (- 1074)"
  have "log 2 x \<le> 0" using x assms(2) by simp
  then have "k \<le> 0" using x by (simp add: k_def floor_le_iff)
  then have e: "e \<le> 0" by (simp add: e_def)
  have n: "nearest_double x = of_int (round_to_even (x / 2 powi e)) * 2 powi e"
    using False by (simp add: nearest_double_def Let_def e_def k_def)
  have i: "1 / 2 powi e = real_of_int (2 ^ nat (- e))"
    using e by (simp add: power_int_def power_one_over [symmetric] del: power_one_over)
  have "x / 2 powi e \<le> 1 / 2 powi e" using assms(2) by (simp add: divide_right_mono)
  then have "round_to_even (x / 2 powi e) \<le> 2 ^ nat (- e)"
    unfolding i by (rule round_to_even_le_int)
  then have "real_of_int (round_to_even (x / 2 powi e)) \<le> 1 / 2 powi e"
    unfolding i by (simp only: of_int_le_iff)
  then show ?thesis by (simp add: n field_simps)
qed

lemma nearest_double_1: "nearest_double 1 = 1"
proof -
  have "(1::real) / 2 powi (- 52) = of_int (2 ^ 52)" by (simp add: power_int_minus)
  then have "round_to_even (1 / 2 powi (- 52)) = 2 ^ 52" by (simp only: round_to_even_of_int)
  then show ?thesis by (simp add: nearest_double_def power_int_minus)
qed

text \<open>
  A real below \<open>2\<^sup>-\<^sup>1\<^sup>0\<^sup>7\<^sup>5\<close>, half the smallest positive double, underflows to 0.
\<close>

lemma nearest_double_tiny:
  assumes "0 \<le> x" "x < 2 powi (- 1075)"
  shows "nearest_double x = 0"
proof (cases "x = 0")
  case True
  then show ?thesis by simp
next
  case False
  then have x: "0 < x" using assms(1) by simp
  have "x < 2 powi (- 1022)"
    using assms(2) power_int_increasing [of "- 1075" "- 1022" "2::real"] by simp
  have "\<lfloor>log 2 x\<rfloor> < - 1022"
  proof (rule ccontr)
    assume "\<not> \<lfloor>log 2 x\<rfloor> < - 1022"
    then have "- 1022 \<le> \<lfloor>log 2 x\<rfloor>" by simp
    then have "(2::real) powi (- 1022) \<le> 2 powi \<lfloor>log 2 x\<rfloor>"
      by (intro power_int_increasing) simp_all
    then show False using binade_exists [OF x] \<open>x < 2 powi (- 1022)\<close> by linarith
  qed
  then have "\<lfloor>log 2 x\<rfloor> - 52 \<le> - 1074" by linarith
  moreover have "\<bar>x\<bar> = x" using x by simp
  ultimately have e: "max (\<lfloor>log 2 \<bar>x\<bar>\<rfloor> - 52) (- 1074) = - 1074"
    by (simp only: max_absorb2)
  have "x / 2 powi (- 1074) < 2 powi (- 1075) / 2 powi (- 1074)"
    using assms(2) by (intro divide_strict_right_mono) simp_all
  also have "\<dots> = 1 / 2" by (simp add: power_int_minus)
  finally have h: "x / 2 powi (- 1074) < 1 / 2" .
  have p: "0 \<le> x / 2 powi (- 1074)" using x by simp
  then have "\<lfloor>x / 2 powi (- 1074)\<rfloor> = 0" using h by (intro floor_unique) simp_all
  then have "round_to_even (x / 2 powi (- 1074)) = 0"
    using h by (simp add: round_to_even_def Let_def)
  then show ?thesis using False by (simp add: nearest_double_def Let_def e)
qed

lemma underflow_unit_small: "(2::real) powi (- 1075) \<le> 1 / 2 ^ 80"
proof -
  have "(2::real) powi (- 1075) \<le> 2 powi (- 80)" by (rule power_int_increasing) simp_all
  then show ?thesis by (simp add: power_int_minus)
qed

lemma nearest_double_crude:
  assumes "0 \<le> x"
  shows "x * (999 / 1000) - 1 / 10 ^ 20 \<le> nearest_double x"
    and "nearest_double x \<le> x * (1001 / 1000) + 1 / 10 ^ 20"
proof -
  have h: "(2::real) powi (- 1075) \<le> 1 / 10 ^ 20"
    using underflow_unit_small by (rule order_trans) simp
  have "x * (999 / 1000) \<le> (1 - 1 / 2 ^ 53) * x" "(1 + 1 / 2 ^ 53) * x \<le> x * (1001 / 1000)"
    using assms by (simp_all add: algebra_simps)
  then show "x * (999 / 1000) - 1 / 10 ^ 20 \<le> nearest_double x"
    and "nearest_double x \<le> x * (1001 / 1000) + 1 / 10 ^ 20"
    using nearest_double_bounds [OF assms] h by linarith+
qed

lemma nearest_double_between:
  assumes "0 \<le> a" "a \<le> x" "x \<le> b"
  shows "a * 999 / 1000 - 1 / 1000000 \<le> nearest_double x"
    and "nearest_double x \<le> b * 1001 / 1000 + 1 / 1000000"
proof -
  have x: "0 \<le> x" using assms by simp
  have "(1::real) / 10 ^ 20 \<le> 1 / 1000000" by simp
  then show "a * 999 / 1000 - 1 / 1000000 \<le> nearest_double x"
    and "nearest_double x \<le> b * 1001 / 1000 + 1 / 1000000"
    using nearest_double_crude [OF x] assms by linarith+
qed

text \<open>
  A real far below \<open>2\<^sup>1\<^sup>0\<^sup>2\<^sup>4\<close> in magnitude does not overflow.
\<close>

lemma double_of_real_finite:
  assumes "\<bar>x\<bar> \<le> 2 ^ 1000"
  shows "double_of_real x = Finite (nearest_double x)"
proof -
  have "\<bar>nearest_double x - x\<bar> \<le> \<bar>x\<bar> / 2 ^ 53 + 1 / 2 ^ 80"
    using nearest_double_error [of x] underflow_unit_small by linarith
  moreover have "\<bar>x\<bar> / 2 ^ 53 \<le> \<bar>x\<bar>" by (simp add: field_simps)
  moreover have "(1::real) / 2 ^ 80 \<le> 1" by simp
  ultimately have "\<bar>nearest_double x\<bar> \<le> 2 * \<bar>x\<bar> + 1" by linarith
  then have "\<bar>nearest_double x\<bar> \<le> 2 * 2 ^ 1000 + 1" using assms by linarith
  moreover have "2 * 2 ^ 1000 + 1 < (2::real) ^ 1024" by simp
  ultimately have "\<bar>nearest_double x\<bar> < 2 ^ 1024" by linarith
  then show ?thesis by (simp add: double_of_real_def Let_def abs_less_iff)
qed

lemma double_of_real_nonneg:
  assumes "0 \<le> x" "x \<le> 2 ^ 1000"
  shows "double_of_real x = Finite (nearest_double x)"
  using assms by (intro double_of_real_finite) simp

lemma double_of_real_unit:
  assumes "0 \<le> x" "x \<le> 1"
  shows "double_of_real x = Finite (nearest_double x)"
proof -
  have "x \<le> 2 ^ 1000" using assms(2) by (rule order_trans) simp
  then show ?thesis using assms(1) by (intro double_of_real_nonneg)
qed

lemma double_mul_finite:
  assumes "0 \<le> x * y" "x * y \<le> 2 ^ 1000"
  shows "double_mul (Finite x) (Finite y) = Finite (nearest_double (x * y))"
  using assms by (simp add: double_of_real_nonneg)

subsection \<open>Sums added up in doubles\<close>

text \<open>
  Up to 2601 roundings change a number by a factor between \<open>1 - 10\<^sup>-\<^sup>1\<^sup>2\<close> and
  \<open>1 + 10\<^sup>-\<^sup>1\<^sup>2\<close>.
\<close>

lemma power_roundoff_bounds:
  assumes "n \<le> 2601"
  shows "1 - 1 / 10 ^ 12 \<le> (1 - 1 / 2 ^ 53 :: real) ^ n"
    and "(1 + 1 / 2 ^ 53 :: real) ^ n \<le> 1 + 1 / 10 ^ 12"
proof -
  define u :: real where "u = 1 / 2 ^ 53"
  have u: "0 < u" "u < 1" "2601 * u \<le> 1 / (2 * 10 ^ 12)" by (simp_all add: u_def)
  have "real n * u \<le> 2601 * u" using assms u(1) by (intro mult_right_mono) simp_all
  then have nu: "real n * u \<le> 1 / (2 * 10 ^ 12)" using u(3) by linarith
  have "1 + real n * (- u) \<le> (1 + (- u)) ^ n"
    using u by (intro Bernoulli_inequality) simp
  then have lo: "1 - 1 / (2 * 10 ^ 12) \<le> (1 - u) ^ n" using nu by simp
  then show "1 - 1 / 10 ^ 12 \<le> (1 - 1 / 2 ^ 53 :: real) ^ n" by (simp add: u_def)
  have pos: "0 < (1 - u) ^ n" using u by simp
  have "(1 + u) ^ n * (1 - u) ^ n = ((1 + u) * (1 - u)) ^ n" by (simp add: power_mult_distrib)
  also have "\<dots> \<le> 1"
  proof (rule power_le_one)
    show "0 \<le> (1 + u) * (1 - u)" using u by simp
    have "(1 + u) * (1 - u) = 1 - u * u" by (simp add: algebra_simps)
    then show "(1 + u) * (1 - u) \<le> 1" using u by simp
  qed
  finally have "(1 + u) ^ n \<le> 1 / (1 - u) ^ n" using pos by (simp add: field_simps)
  also have "\<dots> \<le> 1 / (1 - 1 / (2 * 10 ^ 12))"
    using lo by (intro divide_left_mono) simp_all
  also have "\<dots> \<le> 1 + 1 / 10 ^ 12" by simp
  finally show "(1 + 1 / 2 ^ 53 :: real) ^ n \<le> 1 + 1 / 10 ^ 12" by (simp add: u_def)
qed

text \<open>
  The sum of numbers that are not negative, added up from the left with every partial
  sum rounded, against their exact sum.
\<close>

lemma rounded_sum_snoc:
  "rounded_sum fl (vs @ [v]) = fl (rounded_sum fl vs + v)"
  by (simp add: rounded_sum_def)

lemma rounded_sum_bounds:
  assumes "\<forall>v\<in>set vs. 0 \<le> v"
  shows "0 \<le> rounded_sum nearest_double vs
       \<and> (1 - 1 / 2 ^ 53) ^ length vs * sum_list vs - real (length vs) * 2 powi (- 1075)
           \<le> rounded_sum nearest_double vs
       \<and> rounded_sum nearest_double vs
           \<le> (1 + 1 / 2 ^ 53) ^ length vs * (sum_list vs + real (length vs) * 2 powi (- 1075))"
  using assms
proof (induction vs rule: rev_induct)
  case Nil
  then show ?case by (simp add: rounded_sum_def)
next
  case (snoc v vs)
  define u :: real where "u = 1 / 2 ^ 53"
  define h :: real where "h = 2 powi (- 1075)"
  define n where "n = length vs"
  define S where "S = sum_list vs"
  define s where "s = rounded_sum nearest_double vs"
  have u: "0 < u" "u < 1" by (simp_all add: u_def)
  have h: "0 < h" by (simp add: h_def)
  have v: "0 \<le> v" and vs: "\<forall>v\<in>set vs. 0 \<le> v" using snoc.prems by simp_all
  have S: "0 \<le> S" unfolding S_def using vs by (simp add: sum_list_nonneg)
  have IH: "0 \<le> s" "(1 - u) ^ n * S - real n * h \<le> s" "s \<le> (1 + u) ^ n * (S + real n * h)"
    using snoc.IH [OF vs] by (simp_all add: u_def h_def n_def S_def s_def)
  have sv: "0 \<le> s + v" using IH(1) v by simp
  have r: "rounded_sum nearest_double (vs @ [v]) = nearest_double (s + v)"
    by (simp add: rounded_sum_snoc s_def)
  have b: "(1 - u) * (s + v) - h \<le> nearest_double (s + v)"
    "nearest_double (s + v) \<le> (1 + u) * (s + v) + h"
    using nearest_double_bounds [OF sv] by (simp_all add: u_def h_def)
  have p1: "1 \<le> (1 + u) ^ n" "1 \<le> (1 + u) ^ Suc n"
    using u one_le_power [of "1 + u" n] one_le_power [of "1 + u" "Suc n"]
    by (simp_all del: power_Suc)
  have p0: "(1 - u) ^ n \<le> 1"
    using u power_le_one [of "1 - u" n] by simp
  have nn: "0 \<le> nearest_double (s + v)" using sv by (rule nearest_double_nonneg)
  have up: "nearest_double (s + v) \<le> (1 + u) ^ Suc n * (S + v + real (Suc n) * h)"
  proof -
    have "v \<le> (1 + u) ^ n * v" using p1(1) v by (simp add: mult_le_cancel_right1)
    then have "s + v \<le> (1 + u) ^ n * (S + v + real n * h)"
      using IH(3) by (simp add: algebra_simps)
    then have "(1 + u) * (s + v) \<le> (1 + u) * ((1 + u) ^ n * (S + v + real n * h))"
      using u by (intro mult_left_mono) simp_all
    moreover have "h \<le> (1 + u) ^ Suc n * h" using p1(2) h by (simp add: mult_le_cancel_right1)
    ultimately have "(1 + u) * (s + v) + h
        \<le> (1 + u) * ((1 + u) ^ n * (S + v + real n * h)) + (1 + u) ^ Suc n * h"
      by linarith
    also have "\<dots> = (1 + u) ^ Suc n * (S + v + real (Suc n) * h)"
      by (simp add: algebra_simps)
    finally show ?thesis using b(2) by linarith
  qed
  have lo: "(1 - u) ^ Suc n * (S + v) - real (Suc n) * h \<le> nearest_double (s + v)"
  proof -
    have nh: "0 \<le> real n * h" using h by simp
    have "(1 - u) ^ n * v \<le> v" using p0 v by (simp add: mult_le_cancel_right2)
    then have "(1 - u) ^ n * (S + v) - real n * h \<le> s + v"
      using IH(2) by (simp add: algebra_simps)
    then have "(1 - u) * ((1 - u) ^ n * (S + v) - real n * h) \<le> (1 - u) * (s + v)"
      using u by (intro mult_left_mono) simp_all
    moreover have "(1 - u) * (real n * h) \<le> real n * h"
      using u nh by (simp add: mult_le_cancel_right2)
    moreover have "(1 - u) * ((1 - u) ^ n * (S + v) - real n * h)
        = (1 - u) ^ Suc n * (S + v) - (1 - u) * (real n * h)"
      by (simp add: algebra_simps)
    ultimately have "(1 - u) ^ Suc n * (S + v) - real n * h \<le> (1 - u) * (s + v)" by linarith
    moreover have "real (Suc n) * h = real n * h + h" by (simp add: algebra_simps)
    ultimately show ?thesis using b(1) by linarith
  qed
  show ?case
    using nn lo up by (simp add: r u_def h_def n_def S_def)
qed

lemma sum_list_le_length:
  "\<forall>v\<in>set vs. v \<le> b \<Longrightarrow> sum_list vs \<le> real (length vs) * b" for b :: real
  by (induction vs) (simp_all add: algebra_simps)

lemma member_le_sum_list_real:
  "\<forall>v\<in>set vs. 0 \<le> v \<Longrightarrow> w \<in> set vs \<Longrightarrow> w \<le> sum_list vs" for w :: real
proof (induction vs)
  case Nil
  then show ?case by simp
next
  case (Cons v vs)
  have "0 \<le> sum_list vs" using Cons.prems(1) by (simp add: sum_list_nonneg)
  then show ?case using Cons by auto
qed

lemma rounded_sum_le:
  assumes "\<forall>v\<in>set vs. 0 \<le> v \<and> v \<le> 60" "length vs \<le> 2601"
  shows "0 \<le> rounded_sum nearest_double vs" "rounded_sum nearest_double vs \<le> 2 ^ 20"
proof -
  have nn: "\<forall>v\<in>set vs. 0 \<le> v" and le: "\<forall>v\<in>set vs. v \<le> 60" using assms(1) by simp_all
  define n where "n = length vs"
  define S where "S = sum_list vs"
  define s where "s = rounded_sum nearest_double vs"
  define T where "T = S + real n * 2 powi (- 1075)"
  have n: "real n \<le> 2601" using assms(2) by (simp add: n_def)
  have "S \<le> real n * 60" using sum_list_le_length [OF le] by (simp add: S_def n_def)
  then have S: "S \<le> 156060" "0 \<le> S" using n nn by (simp_all add: S_def sum_list_nonneg)
  have "real n * 2 powi (- 1075) \<le> 2601 * (1 / 2 ^ 80)"
    using n underflow_unit_small by (intro mult_mono) simp_all
  then have T: "0 \<le> T" "T \<le> 156061" using S by (simp_all add: T_def)
  have rs: "0 \<le> s" "s \<le> (1 + 1 / 2 ^ 53) ^ n * T"
    using rounded_sum_bounds [OF nn] by (simp_all add: n_def S_def s_def T_def)
  have "(1 + 1 / 2 ^ 53) ^ n * T \<le> (1 + 1 / 10 ^ 12) * T"
    using power_roundoff_bounds(2) [of n] assms(2) T(1) by (intro mult_right_mono) (simp_all add: n_def)
  also have "\<dots> \<le> 2 * T" using T(1) by (intro mult_right_mono) simp_all
  finally have "s \<le> 2 * 156061" using rs(2) T(2) by linarith
  then show "0 \<le> rounded_sum nearest_double vs" "rounded_sum nearest_double vs \<le> 2 ^ 20"
    using rs(1) by (simp_all add: s_def)
qed

lemma rounded_sum_near_one:
  assumes "\<forall>w\<in>set ws. 0 \<le> w" "length ws \<le> 2601" "\<bar>sum_list ws - 1\<bar> \<le> 1 / 10 ^ 11"
  shows "\<bar>rounded_sum nearest_double ws - 1\<bar> \<le> 1 / 10 ^ 9"
proof -
  define u :: real where "u = 1 / 2 ^ 53"
  define h :: real where "h = 2 powi (- 1075)"
  define n where "n = length ws"
  define S where "S = sum_list ws"
  define s where "s = rounded_sum nearest_double ws"
  have S: "1 - 1 / 10 ^ 11 \<le> S" "S \<le> 1 + 1 / 10 ^ 11"
    using assms(3) unfolding S_def by linarith+
  have "0 \<le> h" "h \<le> 1 / 2 ^ 80" using underflow_unit_small by (simp_all add: h_def)
  moreover have "real n \<le> 2601" using assms(2) by (simp add: n_def)
  ultimately have "0 \<le> real n * h" "real n * h \<le> 2601 * (1 / 2 ^ 80)"
    by (simp, intro mult_mono) simp_all
  moreover have "2601 * (1 / 2 ^ 80) \<le> (1::real) / 10 ^ 12" by simp
  ultimately have nh: "0 \<le> real n * h" "real n * h \<le> 1 / 10 ^ 12" by linarith+
  have A: "1 - 1 / 10 ^ 12 \<le> (1 - u) ^ n" and B: "(1 + u) ^ n \<le> 1 + 1 / 10 ^ 12"
    using power_roundoff_bounds [of n] assms(2) by (simp_all add: n_def u_def)
  have rs: "(1 - u) ^ n * S - real n * h \<le> s" "s \<le> (1 + u) ^ n * (S + real n * h)"
    using rounded_sum_bounds [OF assms(1)] by (simp_all add: u_def h_def n_def S_def s_def)
  have "(1 - 1 / 10 ^ 12) * (1 - 1 / 10 ^ 11) \<le> (1 - u) ^ n * S"
    using A S(1) by (intro mult_mono) simp_all
  moreover have "1 - 1 / 10 ^ 10 \<le> (1 - 1 / 10 ^ 12) * (1 - 1 / 10 ^ 11 :: real)" by simp
  ultimately have lo: "1 - 1 / 10 ^ 9 \<le> s" using rs(1) nh(2) by simp
  have "0 \<le> (1 + u) ^ n" by (simp add: u_def)
  then have "(1 + u) ^ n * (S + real n * h) \<le> (1 + 1 / 10 ^ 12) * (1 + 1 / 10 ^ 11 + 1 / 10 ^ 12)"
    using B S nh by (intro mult_mono) simp_all
  moreover have "(1 + 1 / 10 ^ 12) * (1 + 1 / 10 ^ 11 + 1 / 10 ^ 12) \<le> (1 + 1 / 10 ^ 10 :: real)" by simp
  ultimately have hi: "s \<le> 1 + 1 / 10 ^ 9" using rs(2) by simp
  show ?thesis using lo hi unfolding s_def by linarith
qed

text \<open>
  The numbers \<open>vs\<close>, each divided by \<open>s\<close> and rounded, against the quotient of their
  sum by \<open>s\<close>; and with \<open>s\<close> their sum added up in doubles: the sum of the quotients is 1
  up to \<open>10\<^sup>-\<^sup>1\<^sup>1\<close>.
\<close>

lemma normalised_bounds:
  assumes "\<forall>v\<in>set vs. 0 \<le> v" "0 < s"
  shows "(\<forall>w\<in>set (map (\<lambda>v. nearest_double (v / s)) vs). 0 \<le> w)
       \<and> (1 - 1 / 2 ^ 53) * (sum_list vs / s) - real (length vs) * 2 powi (- 1075)
           \<le> sum_list (map (\<lambda>v. nearest_double (v / s)) vs)
       \<and> sum_list (map (\<lambda>v. nearest_double (v / s)) vs)
           \<le> (1 + 1 / 2 ^ 53) * (sum_list vs / s) + real (length vs) * 2 powi (- 1075)"
proof -
  define u :: real where "u = 1 / 2 ^ 53"
  define h :: real where "h = 2 powi (- 1075)"
  have "(\<forall>w\<in>set (map (\<lambda>v. nearest_double (v / s)) vs). 0 \<le> w)
       \<and> (1 - u) * (sum_list vs / s) - real (length vs) * h
           \<le> sum_list (map (\<lambda>v. nearest_double (v / s)) vs)
       \<and> sum_list (map (\<lambda>v. nearest_double (v / s)) vs)
           \<le> (1 + u) * (sum_list vs / s) + real (length vs) * h"
    using assms(1)
  proof (induction vs)
    case Nil
    then show ?case by simp
  next
    case (Cons v vs)
    have q: "0 \<le> v / s" using Cons.prems assms(2) by simp
    have b: "(1 - u) * (v / s) - h \<le> nearest_double (v / s)"
      "nearest_double (v / s) \<le> (1 + u) * (v / s) + h" "0 \<le> nearest_double (v / s)"
      using nearest_double_bounds [OF q] nearest_double_nonneg [OF q] by (simp_all add: u_def h_def)
    have IH: "(\<forall>w\<in>set (map (\<lambda>v. nearest_double (v / s)) vs). 0 \<le> w)"
      "(1 - u) * (sum_list vs / s) - real (length vs) * h
             \<le> sum_list (map (\<lambda>v. nearest_double (v / s)) vs)"
      "sum_list (map (\<lambda>v. nearest_double (v / s)) vs)
             \<le> (1 + u) * (sum_list vs / s) + real (length vs) * h"
      using Cons by simp_all
    have e: "(1 - u) * (sum_list (v # vs) / s) = (1 - u) * (v / s) + (1 - u) * (sum_list vs / s)"
      "(1 + u) * (sum_list (v # vs) / s) = (1 + u) * (v / s) + (1 + u) * (sum_list vs / s)"
      by (simp_all add: add_divide_distrib algebra_simps)
    have l: "real (length (v # vs)) * h = h + real (length vs) * h" by (simp add: algebra_simps)
    have "(1 - u) * (sum_list (v # vs) / s) - real (length (v # vs)) * h
            \<le> nearest_double (v / s) + sum_list (map (\<lambda>v. nearest_double (v / s)) vs)"
      unfolding e l using b(1) IH(2) by linarith
    moreover have "nearest_double (v / s) + sum_list (map (\<lambda>v. nearest_double (v / s)) vs)
            \<le> (1 + u) * (sum_list (v # vs) / s) + real (length (v # vs)) * h"
      unfolding e l using b(2) IH(3) by linarith
    ultimately show ?case using b(3) IH(1) by simp
  qed
  then show ?thesis unfolding u_def h_def .
qed

lemma normalised_sum_near_one:
  assumes "\<forall>v\<in>set vs. 0 \<le> v" "length vs \<le> 2601" "1 / 20000 \<le> sum_list vs"
  shows "sum_list vs / 2 \<le> rounded_sum nearest_double vs"
    and "rounded_sum nearest_double vs \<le> 2 * sum_list vs"
    and "\<bar>sum_list (map (\<lambda>v. nearest_double (v / rounded_sum nearest_double vs)) vs) - 1\<bar>
           \<le> 1 / 10 ^ 11"
proof -
  define u :: real where "u = 1 / 2 ^ 53"
  define h :: real where "h = 2 powi (- 1075)"
  define e :: real where "e = 1 / 10 ^ 12"
  define n where "n = length vs"
  define S where "S = sum_list vs"
  define s where "s = rounded_sum nearest_double vs"
  define K where "K = sum_list (map (\<lambda>v. nearest_double (v / s)) vs)"
  have u: "0 < u" "u \<le> e" by (simp_all add: u_def e_def)
  have e: "0 < e" "e \<le> 1 / 10 ^ 12" by (simp_all add: e_def)
  have S: "1 / 20000 \<le> S" "0 < S" using assms(3) by (simp_all add: S_def)
  have eS: "0 < e * S" using e S by simp
  have "0 \<le> h" "h \<le> 1 / 2 ^ 80" using underflow_unit_small by (simp_all add: h_def)
  moreover have "real n \<le> 2601" using assms(2) by (simp add: n_def)
  ultimately have "0 \<le> real n * h" "real n * h \<le> 2601 * (1 / 2 ^ 80)"
    by (simp, intro mult_mono) simp_all
  moreover have "2601 * (1 / 2 ^ 80) \<le> e * (1 / 20000)" by (simp add: e_def)
  moreover have "e * (1 / 20000) \<le> e * S" using e(1) S(1) by (intro mult_left_mono) simp_all
  ultimately have nh: "0 \<le> real n * h" "real n * h \<le> e * S" by linarith+
  have A: "1 - e \<le> (1 - u) ^ n" and B: "(1 + u) ^ n \<le> 1 + e"
    using power_roundoff_bounds [of n] assms(2) by (simp_all add: n_def u_def e_def)
  have rs: "(1 - u) ^ n * S - real n * h \<le> s" "s \<le> (1 + u) ^ n * (S + real n * h)"
    using rounded_sum_bounds [OF assms(1)] by (simp_all add: u_def h_def n_def S_def s_def)
  have "(1 - e) * S \<le> (1 - u) ^ n * S"
    using A S(2) by (intro mult_right_mono) simp_all
  moreover have "(1 - e) * S = S - e * S" by (simp add: algebra_simps)
  ultimately have lo: "S - 2 * (e * S) \<le> s" using rs(1) nh(2) by linarith
  have "(1 + u) ^ n * (S + real n * h) \<le> (1 + e) * (S + real n * h)"
    using B S(2) nh(1) by (intro mult_right_mono) simp_all
  moreover have "(1 + e) * (S + real n * h) \<le> (1 + e) * (S + e * S)"
    using nh(2) e(1) by (intro mult_left_mono) simp_all
  moreover have "(1 + e) * (S + e * S) = S + 2 * (e * S) + e * (e * S)" by (simp add: algebra_simps)
  moreover have "e * (e * S) \<le> 1 * (e * S)" using e eS by (intro mult_right_mono) simp_all
  ultimately have hi: "s \<le> S + 3 * (e * S)" using rs(2) by linarith
  have "e * S \<le> (1 / 8) * S" using e(2) S(2) by (intro mult_right_mono) simp_all
  then have eS': "e * S \<le> S / 8" by (simp only: times_divide_eq_left mult_1)
  have s: "0 < s" using lo eS' S(2) by linarith
  show "sum_list vs / 2 \<le> rounded_sum nearest_double vs"
    using lo eS' S(2) unfolding S_def s_def by linarith
  show "rounded_sum nearest_double vs \<le> 2 * sum_list vs"
    using hi eS' S(2) unfolding S_def s_def by linarith
  have es: "e * S \<le> e * (2 * s)" "e * s \<le> e * (2 * S)"
    using lo hi eS' S(2) e(1) by (intro mult_left_mono; linarith)+
  have "S \<le> s + 4 * (e * s)" using lo es(1) by (simp add: algebra_simps)
  moreover have "s + 4 * (e * s) = (1 + 4 * e) * s" by (simp add: algebra_simps)
  ultimately have r1: "S / s \<le> 1 + 4 * e" using s by (simp add: pos_divide_le_eq)
  have "s - 6 * (e * s) \<le> S"
  proof -
    have "3 * (e * S) \<le> 6 * (e * s)" using es(1) by (simp add: algebra_simps)
    moreover have "0 \<le> e * s" using e(1) s by simp
    ultimately show ?thesis using hi lo es by linarith
  qed
  moreover have "s - 6 * (e * s) = (1 - 6 * e) * s" by (simp add: algebra_simps)
  ultimately have r2: "1 - 6 * e \<le> S / s" using s by (simp add: pos_le_divide_eq)
  have r0: "0 \<le> S / s" using S(2) s by simp
  have k: "(1 - u) * (S / s) - real n * h \<le> K" "K \<le> (1 + u) * (S / s) + real n * h"
    using normalised_bounds [OF assms(1) s] by (simp_all add: u_def h_def n_def S_def K_def)
  have nh': "real n * h \<le> 1 / 10 ^ 12" using nh(2) eS' S e(2)
  proof -
    have "real n * h \<le> 2601 * (1 / 2 ^ 80)"
      using \<open>0 \<le> h\<close> \<open>h \<le> 1 / 2 ^ 80\<close> \<open>real n \<le> 2601\<close> by (intro mult_mono) simp_all
    also have "\<dots> \<le> 1 / 10 ^ 12" by simp
    finally show ?thesis .
  qed
  have "(1 + u) * (S / s) \<le> (1 + e) * (1 + 4 * e)"
    using u e r1 r0 by (intro mult_mono) simp_all
  also have "\<dots> \<le> 1 + 6 / 10 ^ 12" by (simp add: e_def)
  finally have up: "K \<le> 1 + 1 / 10 ^ 11" using k(2) nh' by simp
  have "(1 - e) * (1 - 6 * e) \<le> (1 - u) * (S / s)"
    using u e r2 by (intro mult_mono) (simp_all add: e_def)
  moreover have "1 - 7 / 10 ^ 12 \<le> (1 - e) * (1 - 6 * e)" by (simp add: e_def)
  ultimately have dn: "1 - 1 / 10 ^ 11 \<le> K" using k(1) nh' by simp
  show "\<bar>sum_list (map (\<lambda>v. nearest_double (v / rounded_sum nearest_double vs)) vs) - 1\<bar>
           \<le> 1 / 10 ^ 11"
    using up dn unfolding K_def s_def by linarith
qed

text \<open>
  The additions of doubles that are finite and not negative, in the arithmetic with
  infinities: no sum of up to 2601 numbers up to 60 overflows.
\<close>

lemma foldl_double_add:
  assumes "\<forall>v\<in>set vs. 0 \<le> v \<and> v \<le> 60" "length vs \<le> 2601"
  shows "foldl double_add (Finite 0) (map Finite vs) = Finite (rounded_sum nearest_double vs)"
  using assms
proof (induction vs rule: rev_induct)
  case Nil
  then show ?case by (simp add: rounded_sum_def)
next
  case (snoc v vs)
  have p: "\<forall>v\<in>set vs. 0 \<le> v \<and> v \<le> 60" "length vs \<le> 2601" and v: "0 \<le> v" "v \<le> 60"
    using snoc.prems by simp_all
  have b: "0 \<le> rounded_sum nearest_double vs + v" "rounded_sum nearest_double vs + v \<le> 2 ^ 20 + 60"
    using rounded_sum_le [OF p] v by simp_all
  have "(2::real) ^ 20 + 40 \<le> 2 ^ 1000" by simp
  then have "double_of_real (rounded_sum nearest_double vs + v)
          = Finite (nearest_double (rounded_sum nearest_double vs + v))"
    using b by (intro double_of_real_nonneg) simp_all
  then show ?case
    using snoc.IH [OF p] by (simp add: rounded_sum_snoc)
qed

lemma all_Finite:
  "\<forall>d\<in>set ds. \<exists>v. d = Finite v \<and> P v \<Longrightarrow> \<exists>vs. ds = map Finite vs \<and> (\<forall>v\<in>set vs. P v)"
proof (induction ds)
  case Nil
  then show ?case by simp
next
  case (Cons d ds)
  then obtain v vs where "d = Finite v" "P v" "ds = map Finite vs" "\<forall>v\<in>set vs. P v" by auto
  then have "d # ds = map Finite (v # vs) \<and> (\<forall>v\<in>set (v # vs). P v)" by simp
  then show ?case by (rule exI)
qed

section \<open>Properties of the kernel\<close>

lemma smod_2_eq_0_iff: "(k::int) smod 2 = 0 \<longleftrightarrow> even k"
  by (auto simp: signed_modulo_int_def sgn_if abs_if split: if_splits)

text \<open>
  The rounded exponential is 1 at 0, between 0 and 1 at a negative number, and at
  least 1/30000 from -9 on.
\<close>

lemma rounded_exp_0: "rounded_exp (Finite 0) = Finite 1"
  by (simp add: rounded_exp_def double_of_real_unit nearest_double_1)

lemma rounded_exp_negative: "\<forall>r<0. \<exists>e. rounded_exp (Finite r) = Finite e \<and> 0 \<le> e \<and> e \<le> 1"
proof (intro allI impI)
  fix r :: real
  assume "r < 0"
  then have e: "0 \<le> exp r" "exp r \<le> 1" by simp_all
  then have "rounded_exp (Finite r) = Finite (nearest_double (exp r))"
    by (simp add: rounded_exp_def double_of_real_unit)
  then show "\<exists>e. rounded_exp (Finite r) = Finite e \<and> 0 \<le> e \<and> e \<le> 1"
    using nearest_double_nonneg [OF e(1)] nearest_double_le_1 [OF e] by blast
qed

lemma rounded_exp_lower:
  assumes "- 9 \<le> r" "r \<le> 0"
  shows "\<exists>e. rounded_exp (Finite r) = Finite e \<and> 1 / 30000 \<le> e"
proof -
  have "exp (9::real) = exp (of_nat 9 * 1)" by simp
  also have "\<dots> = exp 1 ^ 9" by (rule exp_of_nat_mult)
  also have "\<dots> \<le> 3 ^ 9" using exp_le by (intro power_mono) simp_all
  finally have "exp (9::real) \<le> 19683" by simp
  then have "1 / 19683 \<le> 1 / exp (9::real)" by (intro divide_left_mono) simp_all
  also have "\<dots> = exp (- 9)" by (simp add: exp_minus inverse_eq_divide)
  also have "\<dots> \<le> exp r" using assms(1) by simp
  finally have l: "1 / 19683 \<le> exp r" .
  have u: "exp r \<le> 1" using assms(2) by simp
  have "rounded_exp (Finite r) = Finite (nearest_double (exp r))"
    using u by (simp add: rounded_exp_def double_of_real_unit)
  moreover have "1 / 30000 \<le> nearest_double (exp r)"
    using nearest_double_between(1) [of "1 / 19683" "exp r" 1] l u by simp
  ultimately show ?thesis by blast
qed

text \<open>
  Claim C9. Building a Gaussian kernel with an even size fails with the error
  \<^verbatim>\<open>Error("Size must be an odd integer.")\<close> (the specification's \<open>InvalidParameter\<close>),
  for every even size and every sigma.
\<close>

theorem generateGaussianKernel_even_fails:
  "even ksize \<Longrightarrow>
   generateGaussianKernel Math_exp ksize sigma = Inl (Error ''Size must be an odd integer.'')"
  by (simp add: generateGaussianKernel_def smod_2_eq_0_iff)

theorem generateGaussianKernel_even_fails_witness:
  "generateGaussianKernel rounded_exp 4 1 = Inl (Error ''Size must be an odd integer.'')"
  using generateGaussianKernel_even_fails [of 4 rounded_exp 1] by simp

text \<open>
  One value of the table, for a squared sigma \<open>s2\<close> between 1/200 and 1000 and offsets
  whose squares add up to 5000 at most, and for a \<^verbatim>\<open>Math.exp\<close> that is 1 at 0 and between
  0 and 1 at a negative number: the argument \<open>q\<close> of \<^verbatim>\<open>Math.exp\<close> is a finite number that is
  not positive, and the value \<open>v\<close> is a finite number from 0 to 60, at least 1/10000
  at the centre of the table.
\<close>

lemma gaussian_value_finite:
  assumes "Math_exp (Finite 0) = Finite 1"
    and "\<forall>r<0. \<exists>e. Math_exp (Finite r) = Finite e \<and> 0 \<le> e \<and> e \<le> 1"
    and "1 / 200 \<le> s2" "s2 \<le> 1000" "dx * dx + dy * dy \<le> 5000"
  shows "\<exists>q e v. - (2 * (real_of_int (dx * dx + dy * dy) / s2) + 1) \<le> q \<and> q \<le> 0
             \<and> Math_exp (Finite q) = Finite e
             \<and> gaussian_value Math_exp (Finite s2) dx dy = Finite v \<and> 0 \<le> v \<and> v \<le> 60
             \<and> e / 10000 - 1 / 10 ^ 20 \<le> v
             \<and> (dx = 0 \<and> dy = 0 \<longrightarrow> 1 / 10000 \<le> v)"
proof -
  define r2 where "r2 = real_of_int (dx * dx + dy * dy)"
  define t where "t = nearest_double (2 * Math_PI)"
  define d where "d = nearest_double (t * s2)"
  define c where "c = nearest_double (1 / d)"
  define t2 where "t2 = nearest_double (2 * s2)"
  define q where "q = nearest_double (- r2 / t2)"
  have r2: "0 \<le> r2" "r2 \<le> 5000"
    using assms(5) unfolding r2_def by (simp, metis of_int_le_iff of_int_numeral)
  have pi: "6 \<le> 2 * Math_PI" "2 * Math_PI \<le> 13 / 2" by (simp_all add: Math_PI_def)
  have t: "5 \<le> t" "t \<le> 7"
    using nearest_double_between [of 6 "2 * Math_PI" "13 / 2"] pi unfolding t_def by linarith+
  have T: "double_mul (Finite 2) (Finite Math_PI) = Finite t"
    unfolding t_def using pi by (intro double_mul_finite) simp_all
  have ts: "5 * (1 / 200) \<le> t * s2" "t * s2 \<le> 7 * 1000"
    using t assms(3,4) by (intro mult_mono; simp)+
  have d: "1 / 50 \<le> d" "d \<le> 7100"
    using nearest_double_between [of "5 * (1 / 200)" "t * s2" "7 * 1000"] ts unfolding d_def by linarith+
  have D: "double_mul (Finite t) (Finite s2) = Finite d"
    unfolding d_def using ts by (intro double_mul_finite) simp_all
  have id: "1 / 7100 \<le> 1 / d" "1 / d \<le> 50"
    using d by (simp_all add: field_simps)
  have c: "1 / 8000 \<le> c" "c \<le> 51"
    using nearest_double_between [of "1 / 7100" "1 / d" 50] id unfolding c_def by linarith+
  have C: "double_div (Finite 1) (Finite d) = Finite c"
    unfolding c_def using d id by (simp add: double_of_real_nonneg)
  have s22: "1 / 100 \<le> 2 * s2" "2 * s2 \<le> 2000" using assms(3,4) by simp_all
  have t2: "1 / 200 \<le> t2" "t2 \<le> 2100"
    using nearest_double_between [of "1 / 100" "2 * s2" 2000] s22 unfolding t2_def by linarith+
  have T2: "double_mul (Finite 2) (Finite s2) = Finite t2"
    unfolding t2_def using s22 by (intro double_mul_finite) simp_all
  have "r2 / t2 \<le> 5000 / (1 / 200)"
    using r2 t2 by (intro frac_le) simp_all
  then have rt: "0 \<le> r2 / t2" "r2 / t2 \<le> 2 ^ 1000" using r2 t2 by simp_all
  have "\<bar>- r2 / t2\<bar> \<le> 2 ^ 1000" using rt by simp
  then have "double_of_real (- r2 / t2) = Finite q"
    unfolding q_def by (rule double_of_real_finite)
  then have Q: "double_div (Finite (- r2)) (Finite t2) = Finite q"
    using t2 by simp
  have q: "q \<le> 0" unfolding q_def using rt by (intro nearest_double_nonpos) simp
  have ql: "- (2 * (r2 / s2) + 1) \<le> q"
  proof -
    have "s2 \<le> 2 * s2 * (999 / 1000) - 1 / 10 ^ 20" using assms(3) by simp
    then have "s2 \<le> t2"
      using nearest_double_crude(1) [of "2 * s2"] s22 unfolding t2_def by linarith
    then have "r2 / t2 \<le> r2 / s2" using r2 assms(3) by (intro divide_left_mono) simp_all
    moreover have "nearest_double (r2 / t2) \<le> r2 / t2 * (1001 / 1000) + 1 / 10 ^ 20"
      using rt(1) by (rule nearest_double_crude(2))
    moreover have "q = - nearest_double (r2 / t2)"
      using nearest_double_minus [of "r2 / t2"] by (simp add: q_def)
    moreover have "0 \<le> r2 / s2" using r2 assms(3) by simp
    moreover have "(1::real) / 10 ^ 20 \<le> 1" by simp
    moreover have "r2 / t2 * (1001 / 1000) \<le> r2 / s2 * (1001 / 1000)"
      using calculation(1) by simp
    moreover have "r2 / s2 * (1001 / 1000) \<le> 2 * (r2 / s2)"
      using calculation(4) by simp
    ultimately show ?thesis by linarith
  qed
  have q0: "q = 0" if "dx = 0 \<and> dy = 0" using that by (simp add: q_def r2_def)
  obtain e where e: "Math_exp (Finite q) = Finite e" "0 \<le> e" "e \<le> 1" "q = 0 \<longrightarrow> e = 1"
  proof (cases "q = 0")
    case True
    then show ?thesis using assms(1) that by simp
  next
    case False
    then have "q < 0" using q by simp
    then show ?thesis using assms(2) False that by blast
  qed
  define v where "v = nearest_double (c * e)"
  have ce: "0 \<le> c * e" "c * e \<le> 51 * 1" using c e by (simp, intro mult_mono) simp_all
  have V: "double_mul (Finite c) (Finite e) = Finite v"
    unfolding v_def using ce by (intro double_mul_finite) simp_all
  have v: "0 \<le> v" "v \<le> 60"
    using nearest_double_nonneg [OF ce(1)] nearest_double_between(2) [of 0 "c * e" "51 * 1"] ce
    unfolding v_def by linarith+
  have ve: "e / 10000 - 1 / 10 ^ 20 \<le> v"
  proof -
    have "1 / 8000 * e \<le> c * e" using c(1) e(2) by (intro mult_right_mono) simp_all
    moreover have "c * e * (999 / 1000) - 1 / 10 ^ 20 \<le> v"
      unfolding v_def using ce(1) by (rule nearest_double_crude(1))
    ultimately show ?thesis using e(2) by linarith
  qed
  have v0: "1 / 10000 \<le> v" if "dx = 0 \<and> dy = 0"
  proof -
    have "e = 1" using q0 [OF that] e(4) by simp
    then have "v = nearest_double c" by (simp add: v_def)
    then show ?thesis using nearest_double_between(1) [of "1 / 8000" c 51] c by linarith
  qed
  have "gaussian_value Math_exp (Finite s2) dx dy = Finite v"
    unfolding gaussian_value_def T D C T2 r2_def [symmetric] Q e(1) V by (rule refl)
  then show ?thesis using v v0 ve q ql e(1) unfolding r2_def by blast
qed

lemma concat_map_member:
  "y \<in> set ys \<Longrightarrow> x \<in> set xs \<Longrightarrow> f x y \<in> set (concat (map (\<lambda>y. map (\<lambda>x. f x y) xs) ys))"
  by auto

lemma abs_square_le:
  fixes dx :: int
  assumes "\<bar>dx\<bar> \<le> b"
  shows "dx * dx \<le> b * b"
proof -
  have "\<bar>dx\<bar> * \<bar>dx\<bar> \<le> b * b" using assms by (intro mult_mono) simp_all
  then show ?thesis by simp
qed

lemma square_le_2500:
  fixes dx :: int
  assumes "- 50 \<le> dx" "dx \<le> 50"
  shows "dx * dx \<le> 2500"
proof -
  have "\<bar>dx\<bar> \<le> 50" using assms by simp
  then have "\<bar>dx\<bar> * \<bar>dx\<bar> \<le> 50 * 50" by (intro mult_mono) simp_all
  then show ?thesis by simp
qed

lemma sigma2_finite:
  assumes "1 / 10 \<le> sigma" "sigma \<le> 30"
  shows "\<exists>s2. double_mul (Finite sigma) (Finite sigma) = Finite s2 \<and> 1 / 200 \<le> s2 \<and> s2 \<le> 1000
              \<and> sigma * sigma / 2 \<le> s2"
proof -
  define s2 where "s2 = nearest_double (sigma * sigma)"
  have ss: "1 / 10 * (1 / 10) \<le> sigma * sigma" "sigma * sigma \<le> 30 * 30"
    using assms by (intro mult_mono; simp)+
  have s2: "1 / 200 \<le> s2" "s2 \<le> 1000"
    using nearest_double_between [of "1 / 10 * (1 / 10)" "sigma * sigma" "30 * 30"] ss
    unfolding s2_def by linarith+
  have "sigma * sigma * (999 / 1000) - 1 / 10 ^ 20 \<le> s2"
    unfolding s2_def using ss by (intro nearest_double_crude(1)) simp
  moreover have "(1::real) / 10 ^ 20 \<le> 1 / 1000" by simp
  ultimately have h: "sigma * sigma / 2 \<le> s2" using ss(1) by linarith
  have "double_mul (Finite sigma) (Finite sigma) = Finite s2"
    unfolding s2_def using ss by (intro double_mul_finite) simp_all
  then show ?thesis using s2 h by blast
qed

text \<open>
  The table of the values: what holds for every value at offsets up to half the size
  holds for every entry of the table, and the value at the centre is an entry.
\<close>

lemma kernel_values_entries:
  assumes "odd ksize" "1 \<le> ksize"
    and "\<And>dx dy. \<bar>dx\<bar> \<le> ksize div 2 \<Longrightarrow> \<bar>dy\<bar> \<le> ksize div 2
           \<Longrightarrow> \<exists>v. gaussian_value Math_exp (double_mul (Finite sigma) (Finite sigma)) dx dy = Finite v
                   \<and> P v \<and> (dx = 0 \<and> dy = 0 \<longrightarrow> Q v)"
  shows "\<exists>vs. kernel_values Math_exp ksize sigma = map Finite vs
              \<and> length vs = nat (ksize * ksize) \<and> (\<forall>v\<in>set vs. P v) \<and> (\<exists>v\<in>set vs. Q v)"
proof -
  define mean where "mean = ksize div 2"
  define s2 where "s2 = double_mul (Finite sigma) (Finite sigma)"
  define ds where "ds = kernel_values Math_exp ksize sigma"
  have ds: "ds = concat (map (\<lambda>y. map (\<lambda>x. gaussian_value Math_exp s2 (x - mean) (y - mean))
                                       [0..ksize - 1]) [0..ksize - 1])"
    unfolding ds_def kernel_values_def Let_def s2_def mean_def by (rule refl)
  have m: "0 \<le> mean" "mean \<le> ksize - 1" "ksize = 2 * mean + 1"
    using assms(1,2) by (simp_all add: mean_def)
  have el: "\<exists>v. d = Finite v \<and> P v" if "d \<in> set ds" for d
  proof -
    have "\<exists>y\<in>{0..ksize - 1}. \<exists>x\<in>{0..ksize - 1}.
            d = gaussian_value Math_exp s2 (x - mean) (y - mean)"
      using that unfolding ds by auto
    then obtain x y where xy: "0 \<le> x" "x \<le> ksize - 1" "0 \<le> y" "y \<le> ksize - 1"
      and d: "d = gaussian_value Math_exp s2 (x - mean) (y - mean)"
      by auto
    have "\<bar>x - mean\<bar> \<le> ksize div 2" "\<bar>y - mean\<bar> \<le> ksize div 2"
      using xy m unfolding mean_def [symmetric] by linarith+
    then show ?thesis
      using assms(3) [of "x - mean" "y - mean"] d unfolding s2_def by blast
  qed
  then have "\<forall>d\<in>set ds. \<exists>v. d = Finite v \<and> P v" by blast
  then obtain vs where vs: "ds = map Finite vs" "\<forall>v\<in>set vs. P v"
    using all_Finite [of ds P] by blast
  have "length ds = nat ksize * nat ksize"
    by (simp add: ds length_concat comp_def sum_list_triv)
  then have len: "length vs = nat (ksize * ksize)"
    using vs(1) assms(2) by (simp add: nat_mult_distrib)
  obtain v0 where v0: "gaussian_value Math_exp s2 0 0 = Finite v0" "Q v0"
    using assms(3) [of 0 0] m(1) unfolding s2_def mean_def by auto
  have "mean \<in> set [0..ksize - 1]" using m by simp
  then have "gaussian_value Math_exp s2 (mean - mean) (mean - mean) \<in> set ds"
    unfolding ds
    by (intro concat_map_member [of mean _ mean _
          "\<lambda>x y. gaussian_value Math_exp s2 (x - mean) (y - mean)"])
  then have "Finite v0 \<in> set (map Finite vs)" using v0(1) vs(1) by simp
  then have "v0 \<in> set vs" by auto
  then have "\<exists>v\<in>set vs. Q v" using v0(2) by blast
  then show ?thesis using vs len unfolding ds_def by blast
qed

lemma kernel_values_finite:
  assumes "Math_exp (Finite 0) = Finite 1"
    and "\<forall>r<0. \<exists>e. Math_exp (Finite r) = Finite e \<and> 0 \<le> e \<and> e \<le> 1"
    and "odd ksize" "1 \<le> ksize" "ksize \<le> 51" "1 / 10 \<le> sigma" "sigma \<le> 30"
  shows "\<exists>vs. kernel_values Math_exp ksize sigma = map Finite vs
              \<and> length vs = nat (ksize * ksize)
              \<and> (\<forall>v\<in>set vs. 0 \<le> v \<and> v \<le> 60) \<and> 1 / 10000 \<le> sum_list vs"
proof -
  obtain s2 where s2: "double_mul (Finite sigma) (Finite sigma) = Finite s2"
    "1 / 200 \<le> s2" "s2 \<le> 1000"
    using sigma2_finite [OF assms(6,7)] by blast
  have "\<exists>v. gaussian_value Math_exp (double_mul (Finite sigma) (Finite sigma)) dx dy = Finite v
              \<and> (0 \<le> v \<and> v \<le> 60) \<and> (dx = 0 \<and> dy = 0 \<longrightarrow> 1 / 10000 \<le> v)"
    if "\<bar>dx\<bar> \<le> ksize div 2" "\<bar>dy\<bar> \<le> ksize div 2" for dx dy
  proof -
    have "- 50 \<le> dx" "dx \<le> 50" "- 50 \<le> dy" "dy \<le> 50" using that assms(5) by linarith+
    then have "dx * dx + dy * dy \<le> 5000"
      using square_le_2500 [of dx] square_le_2500 [of dy] by linarith
    then show ?thesis
      using gaussian_value_finite [OF assms(1,2) s2(2,3), of dx dy] unfolding s2(1) by blast
  qed
  then obtain vs where vs: "kernel_values Math_exp ksize sigma = map Finite vs"
    "length vs = nat (ksize * ksize)" "\<forall>v\<in>set vs. 0 \<le> v \<and> v \<le> 60"
    "\<exists>v\<in>set vs. 1 / 10000 \<le> v"
    using kernel_values_entries [OF assms(3,4), of Math_exp sigma
        "\<lambda>v. 0 \<le> v \<and> v \<le> 60" "\<lambda>v. 1 / 10000 \<le> v"] by blast
  obtain v0 where "v0 \<in> set vs" "1 / 10000 \<le> v0" using vs(4) by blast
  moreover have "v0 \<le> sum_list vs"
    using vs(3) calculation(1) by (intro member_le_sum_list_real) simp_all
  ultimately have "1 / 10000 \<le> sum_list vs" by linarith
  then show ?thesis using vs by blast
qed

text \<open>
  The kernel of values \<open>vs\<close> that are finite, from 0 to 60, with a sum of 1/10000 at
  least: each value divided by the sum that the loop has added up in doubles.
\<close>

lemma generateGaussianKernel_weights:
  assumes "odd ksize" "kernel_values Math_exp ksize sigma = map Finite vs"
    and "\<forall>v\<in>set vs. 0 \<le> v \<and> v \<le> 60" "length vs \<le> 2601" "1 / 10000 \<le> sum_list vs"
  shows "generateGaussianKernel Math_exp ksize sigma
           = Inr (map Finite (map (\<lambda>v. nearest_double (v / rounded_sum nearest_double vs)) vs))"
    and "0 < rounded_sum nearest_double vs" "rounded_sum nearest_double vs \<le> 2 ^ 20"
proof -
  define s where "s = rounded_sum nearest_double vs"
  have nn: "\<forall>v\<in>set vs. 0 \<le> v" using assms(3) by simp
  have S: "1 / 20000 \<le> sum_list vs" using assms(5) by simp
  have s: "1 / 20000 \<le> s" "0 < s"
    using normalised_sum_near_one(1) [OF nn assms(4) S] assms(5) by (simp_all add: s_def)
  show "0 < rounded_sum nearest_double vs" using s(2) by (simp add: s_def)
  show "rounded_sum nearest_double vs \<le> 2 ^ 20" using assms(3,4) by (rule rounded_sum_le(2))
  have sm: "foldl double_add (Finite 0) (map Finite vs) = Finite s"
    unfolding s_def using assms(3,4) by (rule foldl_double_add)
  have dv: "double_div (Finite v) (Finite s) = Finite (nearest_double (v / s))" if "v \<in> set vs" for v
  proof -
    have v: "0 \<le> v" "v \<le> 60" using that assms(3) by simp_all
    have "v / s \<le> 60 / (1 / 20000)" using v s by (intro frac_le) simp_all
    then have "0 \<le> v / s" "v / s \<le> 2 ^ 1000" using v s by simp_all
    then show ?thesis using s(2) by (simp add: double_of_real_nonneg)
  qed
  have "map (\<lambda>v. double_div v (Finite s)) (map Finite vs)
          = map Finite (map (\<lambda>v. nearest_double (v / s)) vs)"
    by (simp add: dv comp_def del: double_div.simps)
  then show "generateGaussianKernel Math_exp ksize sigma
           = Inr (map Finite (map (\<lambda>v. nearest_double (v / rounded_sum nearest_double vs)) vs))"
    using assms(1) by (simp add: generateGaussianKernel_def smod_2_eq_0_iff assms(2) sm Let_def s_def)
qed

text \<open>
  Claim C4. For every odd size in \<open>[1, 51]\<close> and every sigma in \<open>[0.1, 30]\<close>, the kernel
  built from the size and sigma in double arithmetic is a table of \<open>size * size\<close>
  weights, all of them finite numbers and none negative, whose sum differs from 1 by
  at most \<open>10\<^sup>-\<^sup>9\<close>: their exact sum, and their sum added up in doubles from the left. This
  holds for every \<^verbatim>\<open>Math.exp\<close> that is 1 at 0 and gives a number between 0 and 1 at every
  negative number. (Some weights are 0 where \<^verbatim>\<open>Math.exp\<close> underflows.)
\<close>

theorem generateGaussianKernel_sums_to_one:
  assumes "odd ksize" "1 \<le> ksize" "ksize \<le> 51" "1 / 10 \<le> sigma" "sigma \<le> 30"
    and "Math_exp (Finite 0) = Finite 1"
    and "\<forall>r<0. \<exists>e. Math_exp (Finite r) = Finite e \<and> 0 \<le> e \<and> e \<le> 1"
  shows "\<exists>ws. generateGaussianKernel Math_exp ksize sigma = Inr (map Finite ws)
              \<and> length ws = nat (ksize * ksize)
              \<and> (\<forall>w\<in>set ws. 0 \<le> w)
              \<and> \<bar>sum_list ws - 1\<bar> \<le> 1 / 10 ^ 9
              \<and> \<bar>rounded_sum nearest_double ws - 1\<bar> \<le> 1 / 10 ^ 9"
proof -
  obtain vs where vs: "kernel_values Math_exp ksize sigma = map Finite vs"
    "length vs = nat (ksize * ksize)" "\<forall>v\<in>set vs. 0 \<le> v \<and> v \<le> 60" "1 / 10000 \<le> sum_list vs"
    using kernel_values_finite [OF assms(6,7,1-5)] by blast
  define s where "s = rounded_sum nearest_double vs"
  define ws where "ws = map (\<lambda>v. nearest_double (v / s)) vs"
  have nn: "\<forall>v\<in>set vs. 0 \<le> v" using vs(3) by simp
  have "ksize * ksize \<le> 51 * 51" using assms(2,3) by (intro mult_mono) simp_all
  then have len: "length vs \<le> 2601" using vs(2) by simp
  have S: "1 / 20000 \<le> sum_list vs" using vs(4) by simp
  note W = generateGaussianKernel_weights [OF assms(1) vs(1,3) len vs(4)]
  have "generateGaussianKernel Math_exp ksize sigma = Inr (map Finite ws)"
    using W(1) by (simp add: ws_def s_def)
  moreover have "length ws = nat (ksize * ksize)" by (simp add: ws_def vs(2))
  moreover have wn: "\<forall>w\<in>set ws. 0 \<le> w"
    using normalised_bounds [OF nn W(2)] by (simp add: ws_def s_def)
  moreover have near: "\<bar>sum_list ws - 1\<bar> \<le> 1 / 10 ^ 11"
    using normalised_sum_near_one(3) [OF nn len S] by (simp add: ws_def s_def)
  moreover have "\<bar>sum_list ws - 1\<bar> \<le> 1 / 10 ^ 9"
    using near by (rule order_trans) simp
  moreover have "\<bar>rounded_sum nearest_double ws - 1\<bar> \<le> 1 / 10 ^ 9"
    using wn _ near by (rule rounded_sum_near_one) (simp add: ws_def len)
  ultimately show ?thesis by blast
qed

theorem generateGaussianKernel_sums_to_one_witness:
  "\<exists>ws. generateGaussianKernel rounded_exp 15 3 = Inr (map Finite ws)
       \<and> length ws = 225 \<and> (\<forall>w\<in>set ws. 0 \<le> w) \<and> \<bar>sum_list ws - 1\<bar> \<le> 1 / 10 ^ 9
       \<and> \<bar>rounded_sum nearest_double ws - 1\<bar> \<le> 1 / 10 ^ 9"
  using generateGaussianKernel_sums_to_one [of 15 3 rounded_exp] rounded_exp_0 rounded_exp_negative
  by simp

text \<open>
  The kernel of the example page, of size 3 and sigma 1, with the rounded exponential:
  its nine weights are positive.
\<close>

lemma example_kernel_positive:
  "\<exists>ws. generateGaussianKernel rounded_exp 3 1 = Inr (map Finite ws)
       \<and> length ws = 9 \<and> (\<forall>w\<in>set ws. 0 < w)"
proof -
  obtain s2 where s2: "double_mul (Finite 1) (Finite 1) = Finite s2"
    "1 / 200 \<le> s2" "s2 \<le> 1000" "1 / 2 \<le> s2"
    using sigma2_finite [of 1] by auto
  have "\<exists>v. gaussian_value rounded_exp (double_mul (Finite 1) (Finite 1)) dx dy = Finite v
              \<and> (1 / 10 ^ 9 \<le> v \<and> v \<le> 60) \<and> (dx = 0 \<and> dy = 0 \<longrightarrow> 1 / 10000 \<le> v)"
    if "\<bar>dx\<bar> \<le> 3 div 2" "\<bar>dy\<bar> \<le> 3 div 2" for dx dy :: int
  proof -
    have "\<bar>dx\<bar> \<le> 1" "\<bar>dy\<bar> \<le> 1" using that by simp_all
    then have "dx * dx \<le> 1 * 1" "dy * dy \<le> 1 * 1"
      using abs_square_le [of dx 1] abs_square_le [of dy 1] by blast+
    then have r: "dx * dx + dy * dy \<le> 2" by linarith
    then have r': "real_of_int (dx * dx + dy * dy) \<le> 2"
      by (metis of_int_le_iff of_int_numeral)
    obtain q e v where g: "- (2 * (real_of_int (dx * dx + dy * dy) / s2) + 1) \<le> q" "q \<le> 0"
      "rounded_exp (Finite q) = Finite e"
      "gaussian_value rounded_exp (Finite s2) dx dy = Finite v" "0 \<le> v" "v \<le> 60"
      "e / 10000 - 1 / 10 ^ 20 \<le> v" "dx = 0 \<and> dy = 0 \<longrightarrow> 1 / 10000 \<le> v"
      using gaussian_value_finite [OF rounded_exp_0 rounded_exp_negative s2(2,3), of dx dy] r
      by auto
    define a where "a = real_of_int (dx * dx + dy * dy) / s2"
    have "a \<le> 2 / (1 / 2)"
      unfolding a_def using r' s2(4) by (intro frac_le) simp_all
    then have "a \<le> 4" by simp
    moreover have "- (2 * a + 1) \<le> q" using g(1) unfolding a_def .
    ultimately have "- 9 \<le> q" by linarith
    then obtain e' where "rounded_exp (Finite q) = Finite e'" "1 / 30000 \<le> e'"
      using rounded_exp_lower [OF _ g(2)] by blast
    then have "1 / 30000 \<le> e" using g(3) by simp
    then have "1 / 10 ^ 9 \<le> v" using g(7) by simp
    then show ?thesis using g(4,6,8) unfolding s2(1) by blast
  qed
  then obtain vs where vs: "kernel_values rounded_exp 3 1 = map Finite vs"
    "length vs = nat (3 * 3)" "\<forall>v\<in>set vs. 1 / 10 ^ 9 \<le> v \<and> v \<le> 60"
    "\<exists>v\<in>set vs. 1 / 10000 \<le> v"
    using kernel_values_entries [of 3 rounded_exp 1
        "\<lambda>v. 1 / 10 ^ 9 \<le> v \<and> v \<le> 60" "\<lambda>v. 1 / 10000 \<le> v"] by auto
  define s where "s = rounded_sum nearest_double vs"
  have b: "\<forall>v\<in>set vs. 0 \<le> v \<and> v \<le> 60"
  proof
    fix v assume "v \<in> set vs"
    then have "1 / 10 ^ 9 \<le> v \<and> v \<le> 60" using vs(3) by blast
    then show "0 \<le> v \<and> v \<le> 60" by simp
  qed
  have len: "length vs \<le> 2601" using vs(2) by simp
  obtain v0 where "v0 \<in> set vs" "1 / 10000 \<le> v0" using vs(4) by blast
  moreover have "v0 \<le> sum_list vs"
    using b calculation(1) by (intro member_le_sum_list_real) simp_all
  ultimately have S: "1 / 10000 \<le> sum_list vs" by linarith
  have W: "generateGaussianKernel rounded_exp 3 1 = Inr (map Finite (map (\<lambda>v. nearest_double (v / s)) vs))"
    "0 < s" "s \<le> 2 ^ 20"
    using generateGaussianKernel_weights [OF _ vs(1) b len S] by (simp_all add: s_def)
  have "0 < nearest_double (v / s)" if "v \<in> set vs" for v
  proof -
    have v: "1 / 10 ^ 9 \<le> v" using that vs(3) by blast
    define a where "a = v / s"
    have "(1 / 10 ^ 9) / 2 ^ 20 \<le> a" unfolding a_def using v W(2,3) by (intro frac_le) simp_all
    then have 1: "1 / 10000000000000000 \<le> a" by simp
    have "0 \<le> a" using 1 by simp
    then have "a * (999 / 1000) - 1 / 10 ^ 20 \<le> nearest_double a"
      by (rule nearest_double_crude(1))
    then have "a * (999 / 1000) - 1 / 100000000000000000000 \<le> nearest_double a" by simp
    then have "0 < nearest_double a" using 1 by linarith
    then show ?thesis unfolding a_def .
  qed
  then have "\<forall>w\<in>set (map (\<lambda>v. nearest_double (v / s)) vs). 0 < w" by simp
  moreover have "length (map (\<lambda>v. nearest_double (v / s)) vs) = 9" using vs(2) by simp
  ultimately show ?thesis using W(1) by blast
qed

text \<open>
  A sigma below the range of the slider, whose square underflows to 0: with the sigma
  \<open>10\<^sup>-\<^sup>2\<^sup>0\<^sup>0\<close> every entry of the kernel is \<^verbatim>\<open>NaN\<close>, as on the page. (The value at the centre
  is \<^verbatim>\<open>Infinity * Math.exp(NaN)\<close>, every other value \<^verbatim>\<open>Infinity * Math.exp(-Infinity)\<close>.)
\<close>

lemma two_pi_finite: "\<exists>t. double_mul (Finite 2) (Finite Math_PI) = Finite t"
proof -
  have "0 \<le> 2 * Math_PI" "2 * Math_PI \<le> 2 ^ 1000" by (simp_all add: Math_PI_def)
  then show ?thesis using double_mul_finite [of 2 Math_PI] by blast
qed

lemma gaussian_value_zero_sigma2: "gaussian_value rounded_exp (Finite 0) dx dy = NaN"
proof -
  obtain t where t: "double_mul (Finite 2) (Finite Math_PI) = Finite t"
    using two_pi_finite by blast
  have z: "double_of_real 0 = Finite 0" by (simp add: double_of_real_def)
  have r: "0 \<le> dx * dx + dy * dy" by simp
  show ?thesis
  proof (cases "dx * dx + dy * dy = 0")
    case True
    show ?thesis
      unfolding gaussian_value_def t True by (simp add: z rounded_exp_def signed_infinity_def)
  next
    case False
    then have "0 < dx * dx + dy * dy" using r by linarith
    then have "0 < real_of_int (dx * dx + dy * dy)" by (simp only: of_int_0_less_iff)
    then show ?thesis
      unfolding gaussian_value_def t by (simp add: z rounded_exp_def signed_infinity_def)
  qed
qed

lemma foldl_double_add_NaN: "foldl double_add NaN ds = NaN"
  by (induction ds) simp_all

lemma kernel_tiny_sigma:
  assumes "odd ksize"
  shows "generateGaussianKernel rounded_exp ksize (1 / 10 ^ 200)
           = Inr (replicate (nat ksize * nat ksize) NaN)"
proof -
  define n where "n = nat ksize * nat ksize"
  have "(1 / 10 ^ 200 * (1 / 10 ^ 200) :: real) < 2 powi (- 1075)"
    by (simp add: power_int_minus field_simps)
  then have "nearest_double (1 / 10 ^ 200 * (1 / 10 ^ 200)) = 0"
    by (intro nearest_double_tiny) simp_all
  then have s2: "double_mul (Finite (1 / 10 ^ 200)) (Finite (1 / 10 ^ 200)) = Finite 0"
    by (simp add: double_of_real_def del: divide_divide_eq_left times_divide_times_eq)
  have "kernel_values rounded_exp ksize (1 / 10 ^ 200)
          = concat (map (\<lambda>y. map (\<lambda>x. NaN) [0..ksize - 1]) [0..ksize - 1])"
    unfolding kernel_values_def Let_def s2 gaussian_value_zero_sigma2 by (rule refl)
  also have "\<dots> = replicate n NaN"
    by (rule replicate_eqI)
      (auto simp: n_def length_concat comp_def sum_list_triv split: if_splits)
  finally have k: "kernel_values rounded_exp ksize (1 / 10 ^ 200) = replicate n NaN" .
  have m: "map (\<lambda>v. double_div v (foldl double_add (Finite 0) (replicate n NaN))) (replicate n NaN)
          = replicate n NaN"
    by (cases n) (simp_all add: foldl_double_add_NaN)
  have o: "ksize smod 2 \<noteq> 0" using assms by (simp add: smod_2_eq_0_iff)
  show ?thesis
    unfolding generateGaussianKernel_def Let_def k m n_def [symmetric] using o by (simp only: if_False)
qed

text \<open>
  Claim C3, as amended. Kernel construction fails exactly when the size is even, and
  then with \<^verbatim>\<open>Error("Size must be an odd integer.")\<close>. No range is checked: an odd size
  outside \<open>[1, 51]\<close> and a sigma outside \<open>[0.1, 30]\<close> are accepted.
\<close>

theorem generateGaussianKernel_fails_iff:
  "generateGaussianKernel Math_exp ksize sigma = Inl e
     \<longleftrightarrow> even ksize \<and> e = Error ''Size must be an odd integer.''"
  by (auto simp: generateGaussianKernel_def smod_2_eq_0_iff Let_def)

text \<open>
  The claim as stated fails: the sizes 53 and -1 lie outside \<open>[1, 51]\<close>, the sigmas 100
  and 0 outside \<open>[0.1, 30]\<close>, and all four kernels are built.
\<close>

theorem generateGaussianKernel_out_of_range_accepted:
  "\<not> isl (generateGaussianKernel rounded_exp 53 3) \<and> \<not> isl (generateGaussianKernel rounded_exp (- 1) 3)
   \<and> \<not> isl (generateGaussianKernel rounded_exp 15 100) \<and> \<not> isl (generateGaussianKernel rounded_exp 15 0)"
  by (simp add: generateGaussianKernel_def smod_2_eq_0_iff Let_def)

section \<open>Properties of the gradient field\<close>

subsection \<open>Array writes in a loop\<close>

lemma js_at_in_range: "0 \<le> i \<Longrightarrow> i < int (length xs) \<Longrightarrow> js_at xs i = Some (xs ! nat i)"
  by (simp add: js_at_def)

lemma length_js_set_in_range:
  "0 \<le> i \<Longrightarrow> i < int (length xs) \<Longrightarrow> length (js_set xs i v) = length xs"
  by (simp add: js_set_def)

lemma nth_js_set_eq: "0 \<le> i \<Longrightarrow> i < int (length xs) \<Longrightarrow> js_set xs i v ! nat i = v"
  by (simp add: js_set_def)

lemma nth_js_set_neq:
  "0 \<le> i \<Longrightarrow> i < int (length xs) \<Longrightarrow> int j \<noteq> i \<Longrightarrow> js_set xs i v ! j = xs ! j"
  by (auto simp: js_set_def)

lemma fold_js_set_length:
  "(\<forall>q\<in>set ps. 0 \<le> idx q \<and> idx q < int (length a))
     \<Longrightarrow> length (fold (\<lambda>q a. js_set a (idx q) (f q)) ps a) = length a"
  by (induction ps arbitrary: a) (simp_all add: length_js_set_in_range)

lemma fold_js_set_other:
  "(\<forall>q\<in>set ps. 0 \<le> idx q \<and> idx q < int (length a)) \<Longrightarrow> int j \<notin> idx ` set ps
     \<Longrightarrow> fold (\<lambda>q a. js_set a (idx q) (f q)) ps a ! j = a ! j"
  by (induction ps arbitrary: a) (auto simp: length_js_set_in_range nth_js_set_neq)

lemma fold_js_set_at:
  "(\<forall>q\<in>set ps. 0 \<le> idx q \<and> idx q < int (length a)) \<Longrightarrow> inj_on idx (set ps) \<Longrightarrow> p \<in> set ps
     \<Longrightarrow> fold (\<lambda>q a. js_set a (idx q) (f q)) ps a ! nat (idx p) = f p"
proof (induction ps arbitrary: a rule: rev_induct)
  case Nil
  then show ?case by simp
next
  case (snoc q ps)
  have len: "length (fold (\<lambda>q a. js_set a (idx q) (f q)) ps a) = length a"
    using snoc.prems(1) by (intro fold_js_set_length) simp
  show ?case
  proof (cases "idx p = idx q")
    case True
    then have "p = q" using snoc.prems(2,3) by (auto simp: inj_on_def)
    then show ?thesis using snoc.prems(1) len by (simp add: nth_js_set_eq)
  next
    case False
    then have "p \<in> set ps" using snoc.prems(3) by auto
    moreover have "inj_on idx (set ps)" using snoc.prems(2) by (auto simp: inj_on_def)
    ultimately have "fold (\<lambda>q a. js_set a (idx q) (f q)) ps a ! nat (idx p) = f p"
      using snoc.IH snoc.prems(1) by simp
    moreover have "0 \<le> idx p" using snoc.prems(1,3) by auto
    ultimately show ?thesis using snoc.prems(1) len False by (simp add: nth_js_set_neq)
  qed
qed

lemma fold_gradient_step:
  "fold (gradient_step fl W data) ps (Ix, Iy) =
     (fold (\<lambda>q a. js_set a (fst q * W + snd q) (fst (sobel_at fl W data (snd q) (fst q)))) ps Ix,
      fold (\<lambda>q a. js_set a (fst q * W + snd q) (snd (sobel_at fl W data (snd q) (fst q)))) ps Iy)"
  by (induction ps arbitrary: Ix Iy) (simp_all add: gradient_step_def split_beta Let_def)

lemma set_interior_pixels: "set (interior_pixels W H) = {(y, x). 1 \<le> y \<and> y \<le> int H - 2 \<and> 1 \<le> x \<and> x \<le> int W - 2}"
  by (auto simp: interior_pixels_def)

lemma interior_index_range:
  assumes "q \<in> set (interior_pixels W H)"
  shows "0 \<le> fst q * int W + snd q \<and> fst q * int W + snd q < int (W * H)"
proof -
  obtain y x where q: "q = (y, x)" by (cases q)
  have b: "1 \<le> y" "y \<le> int H - 2" "1 \<le> x" "x \<le> int W - 2"
    using assms by (simp_all add: q set_interior_pixels)
  have "y * int W + x < (y + 1) * int W" using b by (simp add: algebra_simps)
  also have "\<dots> \<le> int H * int W" using b by (intro mult_right_mono) simp_all
  finally have "y * int W + x < int (W * H)" by (simp add: mult.commute)
  moreover have "0 \<le> y * int W + x" using b by simp
  ultimately show ?thesis by (simp add: q)
qed

lemma interior_index_inj: "inj_on (\<lambda>q. fst q * int W + snd q) (set (interior_pixels W H))"
proof (rule inj_onI)
  fix p q assume p: "p \<in> set (interior_pixels W H)" and q: "q \<in> set (interior_pixels W H)"
    and eq: "fst p * int W + snd p = fst q * int W + snd q"
  have bp: "0 \<le> snd p" "snd p < int W" and bq: "0 \<le> snd q" "snd q < int W"
    using p q by (auto simp: set_interior_pixels)
  have "(fst p * int W + snd p) div int W = fst p" "(fst q * int W + snd q) div int W = fst q"
    using bp bq by (simp_all add: div_pos_pos_trivial)
  then have "fst p = fst q" using eq by simp
  then show "p = q" using eq by (simp add: prod_eq_iff)
qed

lemma gradient_arrays_eq:
  "gradient_arrays fl W H data =
     (fold (\<lambda>q a. js_set a (fst q * int W + snd q) (fst (sobel_at fl (int W) data (snd q) (fst q))))
           (interior_pixels W H) (replicate (W * H) (Some 0)),
      fold (\<lambda>q a. js_set a (fst q * int W + snd q) (snd (sobel_at fl (int W) data (snd q) (fst q))))
           (interior_pixels W H) (replicate (W * H) (Some 0)))"
  by (simp add: gradient_arrays_def fold_gradient_step)

lemma length_gradient_arrays:
  "length (fst (gradient_arrays fl W H data)) = W * H"
  "length (snd (gradient_arrays fl W H data)) = W * H"
  using interior_index_range [of _ W H]
  by (simp_all add: gradient_arrays_eq fold_js_set_length)

lemma gradient_arrays_interior:
  assumes "1 \<le> x" "x < int W - 1" "1 \<le> y" "y < int H - 1"
  shows "fst (gradient_arrays fl W H data) ! nat (y * int W + x) = fst (sobel_at fl (int W) data x y)"
    and "snd (gradient_arrays fl W H data) ! nat (y * int W + x) = snd (sobel_at fl (int W) data x y)"
proof -
  have m: "(y, x) \<in> set (interior_pixels W H)" using assms by (simp add: set_interior_pixels)
  have r: "\<forall>q\<in>set (interior_pixels W H). 0 \<le> fst q * int W + snd q
             \<and> fst q * int W + snd q < int (length (replicate (W * H) (Some (0::real))))"
    using interior_index_range [of _ W H] by simp
  show "fst (gradient_arrays fl W H data) ! nat (y * int W + x) = fst (sobel_at fl (int W) data x y)"
    using fold_js_set_at [OF r interior_index_inj m, of "\<lambda>q. fst (sobel_at fl (int W) data (snd q) (fst q))"]
    by (simp add: gradient_arrays_eq)
  show "snd (gradient_arrays fl W H data) ! nat (y * int W + x) = snd (sobel_at fl (int W) data x y)"
    using fold_js_set_at [OF r interior_index_inj m, of "\<lambda>q. snd (sobel_at fl (int W) data (snd q) (fst q))"]
    by (simp add: gradient_arrays_eq)
qed

lemma gradient_arrays_border:
  assumes "0 \<le> x" "x < int W" "0 \<le> y" "y < int H"
    and "x = 0 \<or> x = int W - 1 \<or> y = 0 \<or> y = int H - 1"
  shows "fst (gradient_arrays fl W H data) ! nat (y * int W + x) = Some 0"
    and "snd (gradient_arrays fl W H data) ! nat (y * int W + x) = Some 0"
proof -
  have r: "\<forall>q\<in>set (interior_pixels W H). 0 \<le> fst q * int W + snd q
             \<and> fst q * int W + snd q < int (length (replicate (W * H) (Some (0::real))))"
    using interior_index_range [of _ W H] by simp
  have n: "int (nat (y * int W + x)) \<notin> (\<lambda>q. fst q * int W + snd q) ` set (interior_pixels W H)"
  proof
    assume "int (nat (y * int W + x)) \<in> (\<lambda>q. fst q * int W + snd q) ` set (interior_pixels W H)"
    then obtain y' x' where q: "(y', x') \<in> set (interior_pixels W H)" and eq: "y * int W + x = y' * int W + x'"
      using assms(1,3) by auto
    have b: "0 \<le> x'" "x' < int W" using q by (auto simp: set_interior_pixels)
    have "(y * int W + x) div int W = y" "(y' * int W + x') div int W = y'"
      using assms(1,2) b by (simp_all add: div_pos_pos_trivial)
    then have "y = y'" using eq by simp
    then have "x = x'" using eq by simp
    then show False using q assms(5) \<open>y = y'\<close> by (auto simp: set_interior_pixels)
  qed
  have lt: "nat (y * int W + x) < W * H"
  proof -
    have "y * int W + x < (y + 1) * int W" using assms by (simp add: algebra_simps)
    also have "\<dots> \<le> int H * int W" using assms by (intro mult_right_mono) simp_all
    finally show ?thesis using assms(1,3) by (simp add: nat_less_iff mult.commute)
  qed
  show "fst (gradient_arrays fl W H data) ! nat (y * int W + x) = Some 0"
    using fold_js_set_other [OF r n] lt by (simp add: gradient_arrays_eq)
  show "snd (gradient_arrays fl W H data) ! nat (y * int W + x) = Some 0"
    using fold_js_set_other [OF r n] lt by (simp add: gradient_arrays_eq)
qed

subsection \<open>The Sobel sums\<close>

lemma pixel_index_bounds:
  assumes "0 \<le> x" "x < int W" "0 \<le> y" "y < int H"
  shows "nat (y * int W + x) < W * H"
proof -
  have "y * int W + x < (y + 1) * int W" using assms by (simp add: algebra_simps)
  also have "\<dots> \<le> int H * int W" using assms by (intro mult_right_mono) simp_all
  finally show ?thesis using assms(1,3) by (simp add: nat_less_iff mult.commute)
qed

lemma getGray_in_range:
  assumes "length data = 4 * W * H" "0 \<le> x" "x < int W" "0 \<le> y" "y < int H"
  shows "getGray fl (int W) data x y = Some (luminance fl W data x y)"
proof -
  define p where "p = nat (y * int W + x)"
  have p: "p < W * H" unfolding p_def using assms(2-5) by (rule pixel_index_bounds)
  have i: "(y * int W + x) * 4 = int (4 * p)" using assms(2,4) by (simp add: p_def)
  have "4 * p + 2 < length data" using p assms(1) by simp
  then have "js_at data (int (4 * p)) = Some (data ! (4 * p))"
    "js_at data (int (4 * p) + 1) = Some (data ! (4 * p + 1))"
    "js_at data (int (4 * p) + 2) = Some (data ! (4 * p + 2))"
    unfolding js_at_def by (simp_all add: nat_add_distrib del: of_nat_mult)
  then show ?thesis
    unfolding getGray_def luminance_def gray_level_def Let_def i p_def [symmetric] by simp
qed

lemma kernel_offsets_1:
  "kernel_offsets 1 = [(-1,-1), (-1,0), (-1,1), (0,-1), (0,0), (0,1), (1,-1), (1,0), (1,1)]"
  by (simp add: kernel_offsets_def upto.simps)

lemma int_interval: "{-1..1::int} = {-1, 0, 1}"
  by auto

lemma foldl_add_sum_list: "foldl (+) a ts = a + sum_list ts" for a :: real
  by (induction ts arbitrary: a) (simp_all add: add.assoc)

lemma rounded_sum_exact: "rounded_sum id ts = sum_list ts"
  by (simp add: rounded_sum_def foldl_add_sum_list)

lemma sum_kernel_offsets_1:
  "(\<Sum>(ky, kx)\<leftarrow>kernel_offsets 1. f kx ky) = (\<Sum>ky\<in>{-1..1}. \<Sum>kx\<in>{-1..1}. f kx ky)"
  for f :: "int \<Rightarrow> int \<Rightarrow> real"
  by (simp add: kernel_offsets_1 int_interval)

text \<open>
  The two sums of an interior pixel: the products of the luminances of the nine
  neighbours with the entries of the Sobel matrices, added row by row.
\<close>

lemma sobel_at_rounded:
  assumes "length data = 4 * W * H" "1 \<le> x" "x < int W - 1" "1 \<le> y" "y < int H - 1"
  shows "sobel_at fl (int W) data x y =
           (Some (rounded_sum fl (map (\<lambda>(ky, kx). fl (luminance fl W data (x + kx) (y + ky) * Sx kx ky))
                                      (kernel_offsets 1))),
            Some (rounded_sum fl (map (\<lambda>(ky, kx). fl (luminance fl W data (x + kx) (y + ky) * Sy kx ky))
                                      (kernel_offsets 1))))"
proof -
  have g: "getGray fl (int W) data x' y' = Some (luminance fl W data x' y')"
    if "x - 1 \<le> x'" "x' \<le> x + 1" "y - 1 \<le> y'" "y' \<le> y + 1" for x' y'
    using that assms(2-5) by (intro getGray_in_range [OF assms(1)]) auto
  show ?thesis
    unfolding sobel_at_def kernel_offsets_1
    by (simp add: sobel_step_def g nfl_def nadd_def nmul_def js_at_def sobelX_def sobelY_def
        Sx_def Sy_def rounded_sum_def Let_def)
qed

lemma sobel_at_exact:
  assumes "length data = 4 * W * H" "1 \<le> x" "x < int W - 1" "1 \<le> y" "y < int H - 1"
  shows "sobel_at id (int W) data x y =
           (Some (\<Sum>ky\<in>{-1..1}. \<Sum>kx\<in>{-1..1}. luminance id W data (x + kx) (y + ky) * Sx kx ky),
            Some (\<Sum>ky\<in>{-1..1}. \<Sum>kx\<in>{-1..1}. luminance id W data (x + kx) (y + ky) * Sy kx ky))"
  unfolding sobel_at_rounded [OF assms] rounded_sum_exact id_apply
  by (simp only: sum_kernel_offsets_1 [symmetric] split_def)

subsection \<open>Images of constant intensity\<close>

lemma getGray_constant:
  assumes "constant_image W H data r g b" "0 \<le> x" "x < int W" "0 \<le> y" "y < int H"
  shows "getGray fl (int W) data x y = Some (gray_level fl r g b)"
proof -
  have "nat (y * int W + x) < W * H" using assms(2-5) by (rule pixel_index_bounds)
  then show ?thesis
    using assms(1) getGray_in_range [of data W H x y fl] assms(2-5)
    by (simp add: constant_image_def luminance_def Let_def)
qed

lemma sobel_at_constant:
  assumes "constant_image W H data r g b" "1 \<le> x" "x < int W - 1" "1 \<le> y" "y < int H - 1"
  shows "sobel_at fl (int W) data x y =
           (Some (sobel_sum fl (gray_level fl r g b) sobelX),
            Some (sobel_sum fl (gray_level fl r g b) sobelY))"
proof -
  have g: "getGray fl (int W) data x' y' = Some (gray_level fl r g b)"
    if "x - 1 \<le> x'" "x' \<le> x + 1" "y - 1 \<le> y'" "y' \<le> y + 1" for x' y'
    using that assms(2-5) by (intro getGray_constant [OF assms(1)]) auto
  show ?thesis
    unfolding sobel_at_def kernel_offsets_1
    by (simp add: sobel_step_def g nfl_def nadd_def nmul_def js_at_def sobelX_def sobelY_def
        sobel_sum_def rounded_sum_def Let_def)
qed

lemma sobel_sum_X_rounded:
  assumes "fl 0 = 0" "\<forall>x. fl (fl x) = fl x" "\<forall>x. fl (- x) = - fl x"
  shows "sobel_sum fl (fl z) sobelX = 0"
  using assms by (simp add: sobel_sum_def rounded_sum_def sobelX_def)

lemma gray_level_rounded:
  "\<exists>z. gray_level fl r g b = fl z"
  by (auto simp: gray_level_def)

lemma sobel_sum_exact: "sobel_sum id l sobelX = 0" "sobel_sum id l sobelY = 0"
  by (simp_all add: sobel_sum_def rounded_sum_def sobelX_def sobelY_def)

lemma c3: "binary64 (3 / 10) = 5404319552844595 / 18014398509481984"
  using binary64_binade [of "- 2" "3 / 10"] by (simp add: round_to_even_def)

lemma c59: "binary64 (59 / 100) = 5314247560297185 / 9007199254740992"
  using binary64_binade [of "- 1" "59 / 100"] by (simp add: round_to_even_def)

lemma c11: "binary64 (11 / 100) = 7926335344172073 / 72057594037927936"
  using binary64_binade [of "- 4" "11 / 100"] by (simp add: round_to_even_def)

lemma gray_level_binary64_1: "gray_level binary64 1 1 1 = 9007199254740991 / 9007199254740992"
proof -
  have e: "gray_level binary64 1 1 1 =
             binary64 (binary64 (binary64 (binary64 (3 / 10)) + binary64 (binary64 (59 / 100)))
                       + binary64 (binary64 (11 / 100)))"
    by (simp add: gray_level_def)
  have i: "binary64 (binary64 (3 / 10)) = 5404319552844595 / 18014398509481984"
    "binary64 (binary64 (59 / 100)) = 5314247560297185 / 9007199254740992"
    "binary64 (binary64 (11 / 100)) = 7926335344172073 / 72057594037927936"
    using binary64_idem [of "3 / 10"] binary64_idem [of "59 / 100"] binary64_idem [of "11 / 100"]
    by (simp_all only: c3 c59 c11)
  have r1: "binary64 ((5404319552844595 / 18014398509481984) + (5314247560297185 / 9007199254740992))
             = (4008203668359741 / 4503599627370496)"
    using binary64_binade [of "- 1"
        "(5404319552844595 / 18014398509481984) + (5314247560297185 / 9007199254740992)"]
    by (simp add: round_to_even_def)
  have r2: "binary64 ((4008203668359741 / 4503599627370496) + (7926335344172073 / 72057594037927936))
             = (9007199254740991 / 9007199254740992)"
    using binary64_binade [of "- 1"
        "(4008203668359741 / 4503599627370496) + (7926335344172073 / 72057594037927936)"]
    by (simp add: round_to_even_def)
  show ?thesis by (simp only: e i r1 r2)
qed

lemma sobel_sum_Y_binary64_1:
  "sobel_sum binary64 (9007199254740991 / 9007199254740992) sobelY = 1 / 9007199254740992"
proof -
  have r3: "binary64 ((9007199254740991 / 9007199254740992) * - 1)
             = - (9007199254740991 / 9007199254740992)"
    using binary64_binade [of "- 1"
        "(9007199254740991 / 9007199254740992) * - 1"]
    by (simp add: round_to_even_def)
  have r4: "binary64 (0 + - (9007199254740991 / 9007199254740992))
             = - (9007199254740991 / 9007199254740992)"
    using binary64_binade [of "- 1"
        "0 + - (9007199254740991 / 9007199254740992)"]
    by (simp add: round_to_even_def)
  have r5: "binary64 ((9007199254740991 / 9007199254740992) * - 2)
             = - (9007199254740991 / 4503599627370496)"
    using binary64_binade [of "0"
        "(9007199254740991 / 9007199254740992) * - 2"]
    by (simp add: round_to_even_def)
  have r6: "binary64 (- (9007199254740991 / 9007199254740992) + - (9007199254740991 / 4503599627370496))
             = - (6755399441055743 / 2251799813685248)"
    using binary64_binade [of "1"
        "- (9007199254740991 / 9007199254740992) + - (9007199254740991 / 4503599627370496)"]
    by (simp add: round_to_even_def)
  have r8: "binary64 (- (6755399441055743 / 2251799813685248) + - (9007199254740991 / 9007199254740992))
             = - (9007199254740991 / 2251799813685248)"
    using binary64_binade [of "1"
        "- (6755399441055743 / 2251799813685248) + - (9007199254740991 / 9007199254740992)"]
    by (simp add: round_to_even_def)
  have r9: "binary64 ((9007199254740991 / 9007199254740992) * 0)
             = 0"
    by simp
  have r10: "binary64 (- (9007199254740991 / 2251799813685248) + 0)
             = - (9007199254740991 / 2251799813685248)"
    using binary64_binade [of "1"
        "- (9007199254740991 / 2251799813685248) + 0"]
    by (simp add: round_to_even_def)
  have r15: "binary64 ((9007199254740991 / 9007199254740992) * 1)
             = (9007199254740991 / 9007199254740992)"
    using binary64_binade [of "- 1"
        "(9007199254740991 / 9007199254740992) * 1"]
    by (simp add: round_to_even_def)
  have r16: "binary64 (- (9007199254740991 / 2251799813685248) + (9007199254740991 / 9007199254740992))
             = - (6755399441055743 / 2251799813685248)"
    using binary64_binade [of "1"
        "- (9007199254740991 / 2251799813685248) + (9007199254740991 / 9007199254740992)"]
    by (simp add: round_to_even_def)
  have r17: "binary64 ((9007199254740991 / 9007199254740992) * 2)
             = (9007199254740991 / 4503599627370496)"
    using binary64_binade [of "0"
        "(9007199254740991 / 9007199254740992) * 2"]
    by (simp add: round_to_even_def)
  have r18: "binary64 (- (6755399441055743 / 2251799813685248) + (9007199254740991 / 4503599627370496))
             = - (4503599627370495 / 4503599627370496)"
    using binary64_binade [of "- 1"
        "- (6755399441055743 / 2251799813685248) + (9007199254740991 / 4503599627370496)"]
    by (simp add: round_to_even_def)
  have r20: "binary64 (- (4503599627370495 / 4503599627370496) + (9007199254740991 / 9007199254740992))
             = (1 / 9007199254740992)"
    using binary64_binade [of "- 53"
        "- (4503599627370495 / 4503599627370496) + (9007199254740991 / 9007199254740992)"]
    by (simp add: round_to_even_def)
  show ?thesis
    unfolding sobel_sum_def rounded_sum_def sobelY_def
    by (simp only: list.map foldl_Cons foldl_Nil r3 r4 r5 r6 r8 r9 r10 r15 r16 r17 r18 r20)
qed

subsection \<open>The arrays of the page\<close>

lemma computeGradients_arrays:
  "Ix_array (computeGradients fl data st) = fst (gradient_arrays fl (canvas_width st) (canvas_height st) data)"
  "Iy_array (computeGradients fl data st) = snd (gradient_arrays fl (canvas_width st) (canvas_height st) data)"
  by (simp_all add: computeGradients_def Ix_array_def Iy_array_def new_array_def split_beta Let_def)

lemma computeGradients_canvas:
  "canvas_width (computeGradients fl data st) = canvas_width st"
  "canvas_height (computeGradients fl data st) = canvas_height st"
  "kernelSize (computeGradients fl data st) = kernelSize st"
  "kernelSigma (computeGradients fl data st) = kernelSigma st"
  by (simp_all add: computeGradients_def new_array_def split_beta Let_def)

text \<open>
  Claim C5. Given an RGBA image of width \<open>W\<close> and height \<open>H\<close>, after \<^verbatim>\<open>computeGradients\<close>
  every interior pixel \<open>(x, y)\<close>, with \<open>p = y * W + x\<close>, has \<open>Ix[p]\<close> the sum over the 3 by 3
  neighbourhood of \<open>L(x + kx, y + ky) * Sx[kx, ky]\<close> and \<open>Iy[p]\<close> the sum with \<open>Sy\<close>, where
  \<open>L = 0.3R + 0.59G + 0.11B\<close>: in the arithmetic of the page the sum is added row by row
  and every operation is rounded, in exact arithmetic it is the sum itself. Every border
  pixel has \<open>Ix[p] = Iy[p] = 0\<close>.
\<close>

theorem computeGradients_sobel:
  assumes "length data = 4 * canvas_width st * canvas_height st"
    and "0 \<le> x" "x < int (canvas_width st)" "0 \<le> y" "y < int (canvas_height st)"
  shows "(1 \<le> x \<and> x < int (canvas_width st) - 1 \<and> 1 \<le> y \<and> y < int (canvas_height st) - 1 \<longrightarrow>
           Ix_array (computeGradients fl data st) ! nat (y * int (canvas_width st) + x)
             = Some (rounded_sum fl
                      (map (\<lambda>(ky, kx). fl (luminance fl (canvas_width st) data (x + kx) (y + ky) * Sx kx ky))
                           (kernel_offsets 1)))
         \<and> Iy_array (computeGradients fl data st) ! nat (y * int (canvas_width st) + x)
             = Some (rounded_sum fl
                      (map (\<lambda>(ky, kx). fl (luminance fl (canvas_width st) data (x + kx) (y + ky) * Sy kx ky))
                           (kernel_offsets 1)))
         \<and> Ix_array (computeGradients id data st) ! nat (y * int (canvas_width st) + x)
             = Some (\<Sum>ky\<in>{-1..1}. \<Sum>kx\<in>{-1..1}.
                       luminance id (canvas_width st) data (x + kx) (y + ky) * Sx kx ky)
         \<and> Iy_array (computeGradients id data st) ! nat (y * int (canvas_width st) + x)
             = Some (\<Sum>ky\<in>{-1..1}. \<Sum>kx\<in>{-1..1}.
                       luminance id (canvas_width st) data (x + kx) (y + ky) * Sy kx ky))
       \<and> (x = 0 \<or> x = int (canvas_width st) - 1 \<or> y = 0 \<or> y = int (canvas_height st) - 1 \<longrightarrow>
           Ix_array (computeGradients fl data st) ! nat (y * int (canvas_width st) + x) = Some 0
         \<and> Iy_array (computeGradients fl data st) ! nat (y * int (canvas_width st) + x) = Some 0)"
proof (intro conjI impI)
  assume "1 \<le> x \<and> x < int (canvas_width st) - 1 \<and> 1 \<le> y \<and> y < int (canvas_height st) - 1"
  then have i: "1 \<le> x" "x < int (canvas_width st) - 1" "1 \<le> y" "y < int (canvas_height st) - 1"
    by simp_all
  note r = sobel_at_rounded [OF assms(1) i, of fl]
  note e = sobel_at_exact [OF assms(1) i]
  show "Ix_array (computeGradients fl data st) ! nat (y * int (canvas_width st) + x)
          = Some (rounded_sum fl
                   (map (\<lambda>(ky, kx). fl (luminance fl (canvas_width st) data (x + kx) (y + ky) * Sx kx ky))
                        (kernel_offsets 1)))"
    by (simp only: computeGradients_arrays gradient_arrays_interior [OF i] r fst_conv)
  show "Iy_array (computeGradients fl data st) ! nat (y * int (canvas_width st) + x)
          = Some (rounded_sum fl
                   (map (\<lambda>(ky, kx). fl (luminance fl (canvas_width st) data (x + kx) (y + ky) * Sy kx ky))
                        (kernel_offsets 1)))"
    by (simp only: computeGradients_arrays gradient_arrays_interior [OF i] r snd_conv)
  show "Ix_array (computeGradients id data st) ! nat (y * int (canvas_width st) + x)
          = Some (\<Sum>ky\<in>{-1..1}. \<Sum>kx\<in>{-1..1}.
                    luminance id (canvas_width st) data (x + kx) (y + ky) * Sx kx ky)"
    by (simp only: computeGradients_arrays gradient_arrays_interior [OF i] e fst_conv)
  show "Iy_array (computeGradients id data st) ! nat (y * int (canvas_width st) + x)
          = Some (\<Sum>ky\<in>{-1..1}. \<Sum>kx\<in>{-1..1}.
                    luminance id (canvas_width st) data (x + kx) (y + ky) * Sy kx ky)"
    by (simp only: computeGradients_arrays gradient_arrays_interior [OF i] e snd_conv)
next
  assume b: "x = 0 \<or> x = int (canvas_width st) - 1 \<or> y = 0 \<or> y = int (canvas_height st) - 1"
  show "Ix_array (computeGradients fl data st) ! nat (y * int (canvas_width st) + x) = Some 0"
    using assms(2-5) b by (simp only: computeGradients_arrays gradient_arrays_border)
  show "Iy_array (computeGradients fl data st) ! nat (y * int (canvas_width st) + x) = Some 0"
    using assms(2-5) b by (simp only: computeGradients_arrays gradient_arrays_border)
qed

lemma example_luminance:
  "0 \<le> x \<Longrightarrow> x < 10 \<Longrightarrow> 0 \<le> y \<Longrightarrow> y < 10
     \<Longrightarrow> luminance id 10 example_data x y = (if x = 0 \<and> y = 0 then 3 else 0)"
proof -
  assume a: "0 \<le> x" "x < 10" "0 \<le> y" "y < 10"
  have "nat (y * 10 + x) < 10 * 10" using pixel_index_bounds [of x 10 y 10] a by simp
  moreover have "nat (y * 10 + x) = 0 \<longleftrightarrow> x = 0 \<and> y = 0" using a by auto
  ultimately show ?thesis
    by (simp add: luminance_def gray_level_def example_data_def Let_def)
qed

theorem computeGradients_sobel_witness:
  "Ix_array example_state ! 11 = Some (- 3) \<and> Iy_array example_state ! 11 = Some (- 3)
   \<and> Ix_array example_state ! 12 = Some 0 \<and> Ix_array example_state ! 0 = Some 0
   \<and> Iy_array example_state ! 0 = Some 0"
  using computeGradients_sobel [of example_data "initial_state 10 10 3 1" 1 1 binary64]
    computeGradients_sobel [of example_data "initial_state 10 10 3 1" 2 1 binary64]
    computeGradients_sobel [of example_data "initial_state 10 10 3 1" 0 0 id]
  by (simp add: example_state_def initial_state_def example_luminance int_interval Sx_def Sy_def
      example_data_def [THEN arg_cong [of _ _ length]])

lemma pixel_of_index:
  assumes "p < W * H"
  shows "0 \<le> int (p mod W)" "int (p mod W) < int W" "0 \<le> int (p div W)" "int (p div W) < int H"
    "nat (int (p div W) * int W + int (p mod W)) = p"
proof -
  have W: "0 < W" using assms by (cases W) simp_all
  show "0 \<le> int (p mod W)" "0 \<le> int (p div W)" by simp_all
  show "int (p mod W) < int W" using W by simp
  show "int (p div W) < int H" using assms W by (simp add: less_mult_imp_div_less mult.commute)
  have "int (p div W) * int W + int (p mod W) = int p"
    by (simp flip: of_nat_mult of_nat_add)
  then show "nat (int (p div W) * int W + int (p mod W)) = p" by simp
qed

text \<open>
  Claim C6, as amended. For every image of constant intensity, \<open>Ix[p] = 0\<close> at every
  pixel \<open>p\<close>, whatever the rounding of the arithmetic, provided it rounds 0 to 0, rounds
  a rounded number to itself and commutes with negation, as rounding to a double does;
  \<open>Iy[p] = 0\<close> at every border pixel; and \<open>Iy[p] = 0\<close> at every pixel in exact
  arithmetic. (At an interior pixel the sum for \<open>Iy\<close> adds \<open>-g\<close>, \<open>-2g\<close>, \<open>-g\<close> and then
  \<open>g\<close>, \<open>2g\<close>, \<open>g\<close>; rounded to doubles, the partial sum \<open>-3g\<close> can lose a bit that the
  later steps do not give back.)
\<close>

theorem constant_image_gradients:
  assumes "constant_image (canvas_width st) (canvas_height st) data r g b"
    and "fl 0 = 0" "\<forall>x. fl (fl x) = fl x" "\<forall>x. fl (- x) = - fl x"
    and "p < canvas_width st * canvas_height st"
  shows "Ix_array (computeGradients fl data st) ! p = Some 0
       \<and> Iy_array (computeGradients id data st) ! p = Some 0
       \<and> (p mod canvas_width st = 0 \<or> p mod canvas_width st = canvas_width st - 1
            \<or> p div canvas_width st = 0 \<or> p div canvas_width st = canvas_height st - 1
          \<longrightarrow> Iy_array (computeGradients fl data st) ! p = Some 0)"
proof -
  define W H where "W = canvas_width st" and "H = canvas_height st"
  define x y where "x = int (p mod W)" and "y = int (p div W)"
  have xy: "0 \<le> x" "x < int W" "0 \<le> y" "y < int H" and p: "nat (y * int W + x) = p"
    using pixel_of_index [of p W H] assms(5) by (simp_all add: x_def y_def W_def H_def)
  have ci: "constant_image W H data r g b" using assms(1) by (simp add: W_def H_def)
  have border: "fst (gradient_arrays f W H data) ! p = Some 0"
    "snd (gradient_arrays f W H data) ! p = Some 0"
    if "x = 0 \<or> x = int W - 1 \<or> y = 0 \<or> y = int H - 1" for f
    using gradient_arrays_border [OF xy that, of f data] by (simp_all add: p)
  have inner: "fst (gradient_arrays f W H data) ! p = Some (sobel_sum f (gray_level f r g b) sobelX)"
    "snd (gradient_arrays f W H data) ! p = Some (sobel_sum f (gray_level f r g b) sobelY)"
    if "\<not> (x = 0 \<or> x = int W - 1 \<or> y = 0 \<or> y = int H - 1)" for f
  proof -
    have i: "1 \<le> x" "x < int W - 1" "1 \<le> y" "y < int H - 1" using that xy by auto
    show "fst (gradient_arrays f W H data) ! p = Some (sobel_sum f (gray_level f r g b) sobelX)"
      "snd (gradient_arrays f W H data) ! p = Some (sobel_sum f (gray_level f r g b) sobelY)"
      using gradient_arrays_interior [OF i, of f data] sobel_at_constant [OF ci i, of f]
      by (simp_all add: p)
  qed
  obtain z where z: "gray_level fl r g b = fl z" using gray_level_rounded by blast
  have X: "fst (gradient_arrays fl W H data) ! p = Some 0"
    using border(1) [of fl] inner(1) [of fl] sobel_sum_X_rounded [OF assms(2-4), of z]
    by (cases "x = 0 \<or> x = int W - 1 \<or> y = 0 \<or> y = int H - 1") (simp_all add: z)
  have Y: "snd (gradient_arrays id W H data) ! p = Some 0"
    using border(2) [of id] inner(2) [of id]
    by (cases "x = 0 \<or> x = int W - 1 \<or> y = 0 \<or> y = int H - 1") (simp_all add: sobel_sum_exact)
  have "0 < W" using xy by simp
  then have B: "x = 0 \<or> x = int W - 1 \<or> y = 0 \<or> y = int H - 1"
    if "p mod W = 0 \<or> p mod W = W - 1 \<or> p div W = 0 \<or> p div W = H - 1"
    using that xy by (auto simp: x_def y_def)
  show ?thesis
    using X Y border(2) [of fl] B
    by (simp add: computeGradients_arrays flip: W_def H_def)
qed

lemma constant_image_replicate: "constant_image W H (replicate (4 * W * H) c) c c c"
  by (simp add: constant_image_def)

theorem constant_image_gradients_witness:
  "Ix_array (computeGradients binary64 (replicate 36 1) (initial_state 3 3 15 3)) ! 4 = Some 0
   \<and> Iy_array (computeGradients id (replicate 36 1) (initial_state 3 3 15 3)) ! 4 = Some 0
   \<and> Iy_array (computeGradients binary64 (replicate 36 1) (initial_state 3 3 15 3)) ! 5 = Some 0"
  using constant_image_gradients [of "initial_state 3 3 15 3" "replicate 36 1" 1 1 1 binary64 4]
    constant_image_gradients [of "initial_state 3 3 15 3" "replicate 36 1" 1 1 1 binary64 5]
    constant_image_replicate [of 3 3 1]
  by (simp add: initial_state_def binary64_idem binary64_minus)

text \<open>
  The claim as stated fails in the arithmetic of the page. On the canvas of 3 by 3
  pixels with every byte 1, \<^verbatim>\<open>getGray\<close> is \<open>0.3 + 0.59 + 0.11\<close> in doubles, which is
  \<open>1 - 2\<^sup>-\<^sup>5\<^sup>3\<close>, and the centre pixel gets \<open>Iy = 2\<^sup>-\<^sup>5\<^sup>3\<close>, not 0.
\<close>

theorem constant_image_Iy_rounding_residue:
  "Iy_array (computeGradients binary64 (replicate 36 1) (initial_state 3 3 15 3)) ! 4
     = Some (1 / 2 ^ 53)"
proof -
  have a: "snd (gradient_arrays binary64 3 3 (replicate 36 1)) ! nat (1 * int 3 + 1)
             = snd (sobel_at binary64 (int 3) (replicate 36 1) 1 1)"
    by (rule gradient_arrays_interior) simp_all
  have b: "sobel_at binary64 (int 3) (replicate 36 1) 1 1 =
      (Some (sobel_sum binary64 (gray_level binary64 1 1 1) sobelX),
       Some (sobel_sum binary64 (gray_level binary64 1 1 1) sobelY))"
    using constant_image_replicate [of 3 3 1] by (intro sobel_at_constant [of 3 3]) simp_all
  have c: "sobel_sum binary64 (gray_level binary64 1 1 1) sobelY = 1 / 2 ^ 53"
    unfolding gray_level_binary64_1 sobel_sum_Y_binary64_1 by simp
  have d: "nat (1 * int 3 + 1) = 4"
    by simp
  have "snd (gradient_arrays binary64 3 3 (replicate 36 1)) ! 4 = Some (1 / 2 ^ 53)"
    using a [unfolded b d snd_conv c] .
  then show ?thesis
    by (simp add: computeGradients_arrays initial_state_def)
qed

section \<open>Properties of a query\<close>

subsection \<open>What a query leaves as it is\<close>

lemma new_array_heap:
  "r < next_ref st \<Longrightarrow> heap (snd (new_array xs st)) r = heap st r"
  "r = next_ref st \<Longrightarrow> heap (snd (new_array xs st)) r = xs"
  "fst (new_array xs st) = next_ref st"
  "next_ref (snd (new_array xs st)) = Suc (next_ref st)"
  by (simp_all add: new_array_def)

lemma new_array_fields:
  "canvas_width (snd (new_array xs st)) = canvas_width st"
  "canvas_height (snd (new_array xs st)) = canvas_height st"
  "kernelSize (snd (new_array xs st)) = kernelSize st"
  "kernelSigma (snd (new_array xs st)) = kernelSigma st"
  "gradients_Ix (snd (new_array xs st)) = gradients_Ix st"
  "gradients_Iy (snd (new_array xs st)) = gradients_Iy st"
  by (simp_all add: new_array_def)

lemma array_map_heap:
  "r < next_ref st \<Longrightarrow> heap (snd (array_map f a st)) r = heap st r"
  "r = next_ref st \<Longrightarrow> heap (snd (array_map f a st)) r
     = map (\<lambda>(v, i). f v (int i)) (zip (heap st a) [0..<length (heap st a)])"
  "fst (array_map f a st) = next_ref st"
  "next_ref (snd (array_map f a st)) = Suc (next_ref st)"
  by (simp_all add: array_map_def new_array_heap)

lemma array_map_fields:
  "canvas_width (snd (array_map f a st)) = canvas_width st"
  "canvas_height (snd (array_map f a st)) = canvas_height st"
  "kernelSize (snd (array_map f a st)) = kernelSize st"
  "kernelSigma (snd (array_map f a st)) = kernelSigma st"
  "gradients_Ix (snd (array_map f a st)) = gradients_Ix st"
  "gradients_Iy (snd (array_map f a st)) = gradients_Iy st"
  by (simp_all add: array_map_def new_array_fields)

lemma array_sort_heap:
  "r \<noteq> a \<Longrightarrow> heap (array_sort tostr a st) r = heap st r"
  "heap (array_sort tostr a st) a = sort_key (js_toString tostr) (heap st a)"
  "next_ref (array_sort tostr a st) = next_ref st"
  "gradients_Ix (array_sort tostr a st) = gradients_Ix st"
  "gradients_Iy (array_sort tostr a st) = gradients_Iy st"
  by (simp_all add: array_sort_def)

lemma keeps_arrays_refl: "keeps_arrays st st"
  by (simp add: keeps_arrays_def)

lemma keeps_arrays_trans: "keeps_arrays st st' \<Longrightarrow> keeps_arrays st' st'' \<Longrightarrow> keeps_arrays st st''"
  by (auto simp: keeps_arrays_def)

lemma keeps_arrays_array_map: "keeps_arrays st (snd (array_map f a st))"
  by (simp add: keeps_arrays_def array_map_heap array_map_fields)

lemma keeps_arrays_new_array: "keeps_arrays st (snd (new_array xs st))"
  by (simp add: keeps_arrays_def new_array_heap new_array_fields)

lemma keeps_arrays_structureTensor: "keeps_arrays st (snd (structureTensor Math_exp st x y))"
proof -
  define st1 where "st1 = snd (array_map (\<lambda>v i. nmul v v) (gradients_Ix st) st)"
  define st2 where "st2 = snd (array_map (\<lambda>v i. nmul v v) (gradients_Iy st1) st1)"
  define st3 where "st3 = snd (array_map (\<lambda>v i. nmul v (num_at (heap st2 (gradients_Iy st2)) i))
                                (gradients_Ix st2) st2)"
  have 1: "keeps_arrays st st1" unfolding st1_def by (rule keeps_arrays_array_map)
  have 2: "keeps_arrays st st2" using 1 keeps_arrays_array_map unfolding st2_def by (rule keeps_arrays_trans)
  have 3: "keeps_arrays st st3" using 2 keeps_arrays_array_map unfolding st3_def by (rule keeps_arrays_trans)
  have "snd (structureTensor Math_exp st x y) = st1 \<or> snd (structureTensor Math_exp st x y) = st2
        \<or> snd (structureTensor Math_exp st x y) = st3"
    by (simp add: structureTensor_def split_beta Let_def st1_def st2_def st3_def split: sum.splits)
  then show ?thesis using 1 2 3 by auto
qed

lemma snd_computeEigenvectors:
  "snd (computeEigenvectors Math_exp eigs st x y) = snd (structureTensor Math_exp st x y)"
  by (simp add: computeEigenvectors_def split: prod.splits sum.splits)

lemma keeps_arrays_drawOverlay_render: "keeps_arrays st (snd (drawOverlay_render Math_exp tostr evs st x y))"
proof -
  define ev where "ev = next_ref st"
  define st1 where "st1 = snd (new_array (map (\<lambda>vec. ndiv (eig_value vec) (Some 1000)) evs) st)"
  have e: "keeps_arrays st st'"
    if "\<forall>r < next_ref st. heap st' r = heap st1 r" "next_ref st' = next_ref st1"
      "gradients_Ix st' = gradients_Ix st1" "gradients_Iy st' = gradients_Iy st1" for st'
    using that by (simp add: keeps_arrays_def st1_def new_array_heap new_array_fields)
  have s: "heap (array_sort tostr ev s) r = heap s r" if "r < next_ref st" for s r
    using that by (simp add: array_sort_heap ev_def)
  show ?thesis
    unfolding drawOverlay_render_def
    by (auto simp: split_beta Let_def new_array_heap array_sort_heap s
        simp flip: ev_def st1_def split: option.splits sum.splits intro!: e)
qed

lemma keeps_arrays_drawOverlay: "keeps_arrays st (snd (drawOverlay Math_exp eigs tostr st x y))"
proof (cases "computeEigenvectors Math_exp eigs st x y")
  case (Pair res st')
  have 1: "keeps_arrays st st'"
    using keeps_arrays_structureTensor [of st Math_exp x y] Pair
      snd_computeEigenvectors [of Math_exp eigs st x y] by simp
  show ?thesis
  proof (cases res)
    case (Inl e)
    then show ?thesis using 1 Pair by (simp add: drawOverlay_def)
  next
    case (Inr evs)
    then show ?thesis
      using keeps_arrays_trans [OF 1 keeps_arrays_drawOverlay_render [of st' Math_exp tostr evs x y]] Pair
      by (simp add: drawOverlay_def)
  qed
qed

lemma keeps_arrays_arrays:
  assumes "keeps_arrays st st'" "gradients_Ix st < next_ref st" "gradients_Iy st < next_ref st"
  shows "Ix_array st' = Ix_array st" "Iy_array st' = Iy_array st"
  using assms by (simp_all add: keeps_arrays_def Ix_array_def Iy_array_def)

text \<open>
  Claim C10. A query does not change the gradient field: for every query point the
  arrays \<^verbatim>\<open>gradients.Ix\<close> and \<^verbatim>\<open>gradients.Iy\<close> are after \<^verbatim>\<open>computeEigenvectors\<close>, and after the
  whole of \<^verbatim>\<open>drawOverlay\<close>, the arrays they were before, with the same elements, whether
  the query returns or throws. (The products are the new arrays of \<^verbatim>\<open>map\<close>, and \<^verbatim>\<open>sort\<close>
  sorts the new array of the eigenvalues.)
\<close>

theorem query_keeps_gradients:
  assumes "gradients_Ix st < next_ref st" "gradients_Iy st < next_ref st"
  shows "Ix_array (snd (computeEigenvectors Math_exp eigs st x y)) = Ix_array st
       \<and> Iy_array (snd (computeEigenvectors Math_exp eigs st x y)) = Iy_array st
       \<and> Ix_array (snd (drawOverlay Math_exp eigs tostr st x y)) = Ix_array st
       \<and> Iy_array (snd (drawOverlay Math_exp eigs tostr st x y)) = Iy_array st"
  using keeps_arrays_arrays [OF keeps_arrays_structureTensor assms, of Math_exp x y]
    keeps_arrays_arrays [OF keeps_arrays_drawOverlay assms, of Math_exp eigs tostr x y]
  by (simp add: snd_computeEigenvectors)

lemma computeGradients_refs:
  "gradients_Ix (computeGradients fl data st) = next_ref st"
  "gradients_Iy (computeGradients fl data st) = Suc (next_ref st)"
  "next_ref (computeGradients fl data st) = Suc (Suc (next_ref st))"
  by (simp_all add: computeGradients_def new_array_def split_beta Let_def)

theorem query_keeps_gradients_witness:
  "Ix_array (snd (computeEigenvectors rounded_exp eigs_closed_form example_state 3 4)) = Ix_array example_state
   \<and> Iy_array (snd (computeEigenvectors rounded_exp eigs_closed_form example_state 3 4)) = Iy_array example_state
   \<and> Ix_array (snd (drawOverlay rounded_exp eigs_closed_form integer_string example_state 3 4)) = Ix_array example_state
   \<and> Iy_array (snd (drawOverlay rounded_exp eigs_closed_form integer_string example_state 3 4)) = Iy_array example_state"
  using query_keeps_gradients [of example_state rounded_exp eigs_closed_form 3 4 integer_string]
  by (simp add: example_state_def computeGradients_refs)

subsection \<open>The smoothed components\<close>

lemma set_kernel_offsets:
  "set (kernel_offsets h) = {(ky, kx). - h \<le> ky \<and> ky \<le> h \<and> - h \<le> kx \<and> kx \<le> h}"
  by (auto simp: kernel_offsets_def)

lemma sample_index_range:
  assumes "1 \<le> canvas_width st" "1 \<le> canvas_height st"
  shows "0 \<le> sample_index st x y q"
    and "sample_index st x y q < int (canvas_width st * canvas_height st)"
proof -
  obtain ky kx where q: "q = (ky, kx)" by (cases q)
  define W H where "W = int (canvas_width st)" and "H = int (canvas_height st)"
  define px py where "px = min (max (x + kx) 0) (W - 1)" and "py = min (max (y + ky) 0) (H - 1)"
  have WH: "1 \<le> W" "1 \<le> H" using assms by (simp_all add: W_def H_def)
  have b: "0 \<le> px" "px \<le> W - 1" "0 \<le> py" "py \<le> H - 1"
    using WH by (simp_all add: px_def py_def)
  have s: "sample_index st x y q = py * W + px"
    by (simp add: sample_index_def q px_def py_def W_def H_def)
  show "0 \<le> sample_index st x y q" using b WH by (simp add: s)
  have "py * W + px < (py + 1) * W" using b by (simp add: algebra_simps)
  also have "\<dots> \<le> H * W" using b WH by (intro mult_right_mono) simp_all
  finally show "sample_index st x y q < int (canvas_width st * canvas_height st)"
    by (simp add: s W_def H_def mult.commute)
qed

lemma weight_index_range:
  assumes "odd (kernelSize st)" "1 \<le> kernelSize st" "q \<in> set (kernel_offsets (kernelSize st div 2))"
  shows "0 \<le> weight_index st q" and "weight_index st q < kernelSize st * kernelSize st"
proof -
  obtain ky kx where q: "q = (ky, kx)" by (cases q)
  define k h where "k = kernelSize st" and "h = kernelSize st div 2"
  have k: "k = 2 * h + 1" "0 \<le> h" using assms(1,2) by (auto simp: k_def h_def elim!: oddE)
  have b: "0 \<le> ky + h" "ky + h \<le> 2 * h" "0 \<le> kx + h" "kx + h \<le> 2 * h"
    using assms(3) by (simp_all add: q set_kernel_offsets h_def)
  have w: "weight_index st q = (ky + h) * k + (kx + h)"
    by (simp add: weight_index_def q k_def h_def)
  show "0 \<le> weight_index st q" using b k by (simp add: w)
  have "(ky + h) * k \<le> (2 * h) * k" using b k by (intro mult_right_mono) simp_all
  then have "(ky + h) * k + (kx + h) < (2 * h + 1) * k" using b k by (simp add: algebra_simps)
  then show "weight_index st q < kernelSize st * kernelSize st"
    using k by (simp add: w flip: k_def)
qed

lemma num_at_map_Some:
  "0 \<le> i \<Longrightarrow> i < int (length xs) \<Longrightarrow> num_at (map Some xs) i = Some (xs ! nat i)"
  by (simp add: num_at_def js_at_def nat_less_iff)

lemma applyGaussian_step_sum:
  assumes "gaussianKernel Math_exp st = Inr (map Some ws)" "length ws = nat (kernelSize st * kernelSize st)"
    and "length cs = canvas_width st * canvas_height st"
    and "1 \<le> canvas_width st" "1 \<le> canvas_height st"
    and "odd (kernelSize st)" "1 \<le> kernelSize st"
    and "set os \<subseteq> set (kernel_offsets (kernelSize st div 2))"
  shows "fold (applyGaussian_step Math_exp st x y (map Some cs)) os (Inr (Some s)) =
           Inr (Some (s + (\<Sum>q\<leftarrow>os. cs ! nat (sample_index st x y q) * ws ! nat (weight_index st q))))"
  using assms(8)
proof (induction os arbitrary: s)
  case Nil
  then show ?case by simp
next
  case (Cons q os)
  obtain ky kx where q: "q = (ky, kx)" by (cases q)
  have m: "q \<in> set (kernel_offsets (kernelSize st div 2))" using Cons.prems by simp
  have p: "num_at (map Some cs) (sample_index st x y q) = Some (cs ! nat (sample_index st x y q))"
    using sample_index_range [OF assms(4,5), of x y q] assms(3)
    by (intro num_at_map_Some) simp_all
  have w: "num_at (map Some ws) (weight_index st q) = Some (ws ! nat (weight_index st q))"
    using weight_index_range [OF assms(6,7) m] assms(2,7)
    by (intro num_at_map_Some) simp_all
  have "applyGaussian_step Math_exp st x y (map Some cs) q (Inr (Some s)) =
          Inr (nadd (Some s) (nmul (num_at (map Some cs) (sample_index st x y q))
                                   (num_at (map Some ws) (weight_index st q))))"
    by (simp add: applyGaussian_step_def q assms(1) Let_def sample_index_def weight_index_def)
  then have "applyGaussian_step Math_exp st x y (map Some cs) q (Inr (Some s)) =
          Inr (Some (s + cs ! nat (sample_index st x y q) * ws ! nat (weight_index st q)))"
    by (simp add: p w nadd_def nmul_def)
  then show ?case
    using Cons.IH [of "s + cs ! nat (sample_index st x y q) * ws ! nat (weight_index st q)"] Cons.prems
    by (simp add: add.assoc)
qed

text \<open>
  The value of \<^verbatim>\<open>applyGaussian\<close>: the sum over the offsets of the component at the clamped
  pixel times the weight of the offset. No read is outside its array.
\<close>

lemma applyGaussian_sum:
  assumes "gaussianKernel Math_exp st = Inr (map Some ws)" "length ws = nat (kernelSize st * kernelSize st)"
    and "length cs = canvas_width st * canvas_height st"
    and "1 \<le> canvas_width st" "1 \<le> canvas_height st"
    and "odd (kernelSize st)" "1 \<le> kernelSize st"
  shows "applyGaussian Math_exp st x y (map Some cs) =
           Inr (Some (\<Sum>q\<leftarrow>kernel_offsets (kernelSize st div 2).
                        cs ! nat (sample_index st x y q) * ws ! nat (weight_index st q)))"
  using applyGaussian_step_sum [OF assms subset_refl, of x y 0]
  by (simp add: applyGaussian_def)

lemma number_of_double_Finite: "map number_of_double (map Finite ws) = map Some ws"
  by (simp add: number_of_double_def comp_def)

text \<open>
  The kernel that a query reads, for an odd size in \<open>[1, 51]\<close>, a sigma in \<open>[0.1, 30]\<close>
  and a \<^verbatim>\<open>Math.exp\<close> that is 1 at 0 and between 0 and 1 at a negative number: \<open>size * size\<close>
  finite numbers, none negative.
\<close>

lemma gaussianKernel_weights:
  assumes "odd (kernelSize st)" "1 \<le> kernelSize st" "kernelSize st \<le> 51"
    and "1 / 10 \<le> kernelSigma st" "kernelSigma st \<le> 30"
    and "Math_exp (Finite 0) = Finite 1"
    and "\<forall>r<0. \<exists>e. Math_exp (Finite r) = Finite e \<and> 0 \<le> e \<and> e \<le> 1"
  shows "\<exists>ws. gaussianKernel Math_exp st = Inr (map Some ws)
              \<and> length ws = nat (kernelSize st * kernelSize st) \<and> (\<forall>w\<in>set ws. 0 \<le> w)"
proof -
  obtain vs where vs: "kernel_values Math_exp (kernelSize st) (kernelSigma st) = map Finite vs"
    "length vs = nat (kernelSize st * kernelSize st)" "\<forall>v\<in>set vs. 0 \<le> v \<and> v \<le> 60"
    "1 / 10000 \<le> sum_list vs"
    using kernel_values_finite [OF assms(6,7,1-5)] by blast
  define ws where "ws = map (\<lambda>v. nearest_double (v / rounded_sum nearest_double vs)) vs"
  have nn: "\<forall>v\<in>set vs. 0 \<le> v" using vs(3) by simp
  have "kernelSize st * kernelSize st \<le> 51 * 51" using assms(2,3) by (intro mult_mono) simp_all
  then have len: "length vs \<le> 2601" using vs(2) by simp
  note W = generateGaussianKernel_weights [OF assms(1) vs(1,3) len vs(4)]
  have "generateGaussianKernel Math_exp (kernelSize st) (kernelSigma st) = Inr (map Finite ws)"
    using W(1) by (simp only: ws_def)
  then have "gaussianKernel Math_exp st = Inr (map Some ws)"
    by (simp add: gaussianKernel_def number_of_double_Finite del: map_map)
  moreover have "length ws = nat (kernelSize st * kernelSize st)" by (simp add: ws_def vs(2))
  moreover have "\<forall>w\<in>set ws. 0 \<le> w"
    using normalised_bounds [OF nn W(2)] by (simp add: ws_def)
  ultimately show ?thesis by blast
qed

lemma applyGaussian_smoothed:
  assumes "gaussianKernel Math_exp st = Inr (map Some ws)" "length ws = nat (kernelSize st * kernelSize st)"
    and "length cs = canvas_width st * canvas_height st"
    and "1 \<le> canvas_width st" "1 \<le> canvas_height st"
    and "odd (kernelSize st)" "1 \<le> kernelSize st"
  shows "applyGaussian Math_exp st x y (map Some cs) = Inr (Some (smoothed st x y cs ws))"
  using applyGaussian_sum [OF assms] by (simp add: smoothed_def)

lemma applyGaussian_fields:
  assumes "canvas_width st' = canvas_width st" "canvas_height st' = canvas_height st"
    "kernelSize st' = kernelSize st" "kernelSigma st' = kernelSigma st"
  shows "applyGaussian Math_exp st' x y arr = applyGaussian Math_exp st x y arr"
proof -
  have "applyGaussian_step Math_exp st' x y arr = applyGaussian_step Math_exp st x y arr"
    unfolding applyGaussian_step_def gaussianKernel_def assms by (rule refl)
  then show ?thesis by (simp add: applyGaussian_def assms)
qed

lemma map_zip_upt_square:
  "map (\<lambda>(v, i). nmul v v) (zip (map Some cs) [0..<length cs]) = map Some (map (\<lambda>c. c * c) cs)"
  by (rule nth_equalityI) (simp_all add: nmul_def)

lemma map_zip_upt_nth:
  "length ys = length xs
    \<Longrightarrow> map (\<lambda>(v, i). nmul v (num_at (map Some ys) (int i))) (zip (map Some xs) [0..<length xs])
        = map Some (map2 (*) xs ys)"
  by (rule nth_equalityI) (simp_all add: num_at_def js_at_def nmul_def)

lemma all_Some: "None \<notin> set xs \<Longrightarrow> xs = map Some (map the xs)"
  by (induction xs) auto

lemma smoothed_fields:
  assumes "canvas_width st' = canvas_width st" "canvas_height st' = canvas_height st"
    "kernelSize st' = kernelSize st"
  shows "smoothed st' x y cs ws = smoothed st x y cs ws"
  by (simp add: smoothed_def sample_index_def weight_index_def assms)

text \<open>
  The matrix of a query: the three components are the smoothed products of the
  gradients, for an odd kernel size from 1 on, a sigma other than 0 and a canvas of at
  least one pixel.
\<close>

lemma structureTensor_smoothed:
  assumes "gradients_ok st" "1 \<le> canvas_width st" "1 \<le> canvas_height st"
    and "odd (kernelSize st)" "1 \<le> kernelSize st"
    and "Ix_array st = map Some cx" "Iy_array st = map Some cy"
    and "gaussianKernel Math_exp st = Inr (map Some ws)" "length ws = nat (kernelSize st * kernelSize st)"
  shows "fst (structureTensor Math_exp st x y) =
           Inr [[Some (smoothed st x y (map (\<lambda>c. c * c) cx) ws),
                 Some (smoothed st x y (map2 (*) cx cy) ws)],
                [Some (smoothed st x y (map2 (*) cx cy) ws),
                 Some (smoothed st x y (map (\<lambda>c. c * c) cy) ws)]]"
proof -
  define st1 where "st1 = snd (array_map (\<lambda>v i. nmul v v) (gradients_Ix st) st)"
  define st2 where "st2 = snd (array_map (\<lambda>v i. nmul v v) (gradients_Iy st1) st1)"
  define st3 where "st3 = snd (array_map (\<lambda>v i. nmul v (num_at (heap st2 (gradients_Iy st2)) i))
                                (gradients_Ix st2) st2)"
  have refs: "gradients_Ix st < next_ref st" "gradients_Iy st < next_ref st"
    and len: "length cx = canvas_width st * canvas_height st"
      "length cy = canvas_width st * canvas_height st"
    using assms(1,6,7) by (auto simp: gradients_ok_def)
  have hx: "heap st (gradients_Ix st) = map Some cx" and hy: "heap st (gradients_Iy st) = map Some cy"
    using assms(6,7) by (simp_all add: Ix_array_def Iy_array_def)
  have f1: "canvas_width st1 = canvas_width st" "canvas_height st1 = canvas_height st"
    "kernelSize st1 = kernelSize st" "kernelSigma st1 = kernelSigma st"
    "gradients_Ix st1 = gradients_Ix st" "gradients_Iy st1 = gradients_Iy st"
    "next_ref st1 = Suc (next_ref st)"
    by (simp_all add: st1_def array_map_fields array_map_heap)
  have f2: "canvas_width st2 = canvas_width st" "canvas_height st2 = canvas_height st"
    "kernelSize st2 = kernelSize st" "kernelSigma st2 = kernelSigma st"
    "gradients_Ix st2 = gradients_Ix st" "gradients_Iy st2 = gradients_Iy st"
    "next_ref st2 = Suc (Suc (next_ref st))"
    by (simp_all add: st2_def array_map_fields array_map_heap f1)
  have f3: "canvas_width st3 = canvas_width st" "canvas_height st3 = canvas_height st"
    "kernelSize st3 = kernelSize st" "kernelSigma st3 = kernelSigma st"
    by (simp_all add: st3_def array_map_fields f2)
  have h1: "heap st1 (gradients_Ix st) = map Some cx" "heap st1 (gradients_Iy st) = map Some cy"
    using refs by (simp_all add: st1_def array_map_heap hx hy)
  have h2: "heap st2 (gradients_Ix st) = map Some cx" "heap st2 (gradients_Iy st) = map Some cy"
    using refs by (simp_all add: st2_def array_map_heap f1 h1)
  have a: "heap st1 (fst (array_map (\<lambda>v i. nmul v v) (gradients_Ix st) st))
             = map Some (map (\<lambda>c. c * c) cx)"
    by (simp add: st1_def array_map_heap hx map_zip_upt_square)
  have b: "heap st2 (fst (array_map (\<lambda>v i. nmul v v) (gradients_Iy st1) st1))
             = map Some (map (\<lambda>c. c * c) cy)"
    by (simp add: st2_def array_map_heap f1 h1 map_zip_upt_square)
  have c: "heap st3 (fst (array_map (\<lambda>v i. nmul v (num_at (heap st2 (gradients_Iy st2)) i))
                                     (gradients_Ix st2) st2))
             = map Some (map2 (*) cx cy)"
    using len map_zip_upt_nth [of cy cx]
    by (simp add: st3_def array_map_heap f2 h2)
  have A: "applyGaussian Math_exp st1 x y (map Some (map (\<lambda>c. c * c) cx))
             = Inr (Some (smoothed st x y (map (\<lambda>c. c * c) cx) ws))"
    using applyGaussian_smoothed [OF assms(8,9) _ assms(2-5), of "map (\<lambda>c. c * c) cx" x y] len
    by (simp add: applyGaussian_fields [OF f1(1-4)])
  have B: "applyGaussian Math_exp st2 x y (map Some (map (\<lambda>c. c * c) cy))
             = Inr (Some (smoothed st x y (map (\<lambda>c. c * c) cy) ws))"
    using applyGaussian_smoothed [OF assms(8,9) _ assms(2-5), of "map (\<lambda>c. c * c) cy" x y] len
    by (simp add: applyGaussian_fields [OF f2(1-4)])
  have C: "applyGaussian Math_exp st3 x y (map Some (map2 (*) cx cy))
             = Inr (Some (smoothed st x y (map2 (*) cx cy) ws))"
    using applyGaussian_smoothed [OF assms(8,9) _ assms(2-5), of "map2 (*) cx cy" x y] len
    by (simp add: applyGaussian_fields [OF f3(1-4)])
  show ?thesis
    unfolding structureTensor_def
    by (simp add: split_beta Let_def a b c A B C del: map_map flip: st1_def st2_def st3_def)
qed

subsection \<open>The gradient arrays after \<^verbatim>\<open>computeGradients\<close>\<close>

lemma sobel_at_finite:
  assumes "length data = 4 * W * H" "1 \<le> x" "x < int W - 1" "1 \<le> y" "y < int H - 1"
  shows "\<exists>gx gy. sobel_at fl (int W) data x y = (Some gx, Some gy)"
proof -
  have g: "\<exists>v. getGray fl (int W) data x' y' = Some v"
    if "x - 1 \<le> x'" "x' \<le> x + 1" "y - 1 \<le> y'" "y' \<le> y + 1" for x' y'
    using that assms(2-5) getGray_in_range [OF assms(1), of x' y' fl] by auto
  obtain v1 v2 v3 v4 v5 v6 v7 v8 v9 where v:
    "getGray fl (int W) data (x - 1) (y - 1) = Some v1" "getGray fl (int W) data x (y - 1) = Some v2"
    "getGray fl (int W) data (x + 1) (y - 1) = Some v3" "getGray fl (int W) data (x - 1) y = Some v4"
    "getGray fl (int W) data x y = Some v5" "getGray fl (int W) data (x + 1) y = Some v6"
    "getGray fl (int W) data (x - 1) (y + 1) = Some v7" "getGray fl (int W) data x (y + 1) = Some v8"
    "getGray fl (int W) data (x + 1) (y + 1) = Some v9"
    using g [of "x - 1" "y - 1"] g [of x "y - 1"] g [of "x + 1" "y - 1"]
      g [of "x - 1" y] g [of x y] g [of "x + 1" y]
      g [of "x - 1" "y + 1"] g [of x "y + 1"] g [of "x + 1" "y + 1"]
    by auto
  show ?thesis
    unfolding sobel_at_def kernel_offsets_1
    by (simp add: sobel_step_def v nfl_def nadd_def nmul_def js_at_def sobelX_def sobelY_def Let_def)
qed

lemma gradient_arrays_finite:
  assumes "length data = 4 * W * H"
  shows "None \<notin> set (fst (gradient_arrays fl W H data))"
    and "None \<notin> set (snd (gradient_arrays fl W H data))"
proof -
  have e: "fst (gradient_arrays fl W H data) ! p \<noteq> None \<and> snd (gradient_arrays fl W H data) ! p \<noteq> None"
    if "p < W * H" for p
  proof -
    define x y where "x = int (p mod W)" and "y = int (p div W)"
    have xy: "0 \<le> x" "x < int W" "0 \<le> y" "y < int H" and p: "nat (y * int W + x) = p"
      using pixel_of_index [OF that] by (simp_all add: x_def y_def)
    show ?thesis
    proof (cases "x = 0 \<or> x = int W - 1 \<or> y = 0 \<or> y = int H - 1")
      case True
      then show ?thesis using gradient_arrays_border [OF xy True, of fl data] by (simp add: p)
    next
      case False
      then have i: "1 \<le> x" "x < int W - 1" "1 \<le> y" "y < int H - 1" using xy by auto
      then show ?thesis
        using gradient_arrays_interior [OF i, of fl data] sobel_at_finite [OF assms i, of fl]
        by (auto simp: p)
    qed
  qed
  show "None \<notin> set (fst (gradient_arrays fl W H data))"
    using e by (auto simp: in_set_conv_nth length_gradient_arrays)
  show "None \<notin> set (snd (gradient_arrays fl W H data))"
    using e by (auto simp: in_set_conv_nth length_gradient_arrays)
qed

lemma computeGradients_ok:
  assumes "length data = 4 * canvas_width st * canvas_height st"
  shows "gradients_ok (computeGradients fl data st)"
  using gradient_arrays_finite [OF assms, of fl]
  by (simp add: gradients_ok_def computeGradients_arrays computeGradients_canvas
      computeGradients_refs length_gradient_arrays)

subsection \<open>Query points outside the canvas\<close>

lemma clamp_widened:
  fixes x :: int
  assumes "1 \<le> W" "0 \<le> h" "- h \<le> k" "k \<le> h"
  shows "min (max (min (max x (- h)) (W - 1 + h) + k) 0) (W - 1) = min (max (x + k) 0) (W - 1)"
proof -
  consider "x < - h" | "- h \<le> x" "x \<le> W - 1 + h" | "W - 1 + h < x" by linarith
  then show ?thesis
  proof cases
    case 1
    then have "min (max x (- h)) (W - 1 + h) = - h" using assms by simp
    moreover have "max (- h + k) 0 = 0" "max (x + k) 0 = 0" using 1 assms by simp_all
    ultimately show ?thesis by simp
  next
    case 2
    then have "min (max x (- h)) (W - 1 + h) = x" by simp
    then show ?thesis by simp
  next
    case 3
    then have "min (max x (- h)) (W - 1 + h) = W - 1 + h" using assms by simp
    moreover have "min (max (W - 1 + h + k) 0) (W - 1) = W - 1" "min (max (x + k) 0) (W - 1) = W - 1"
      using 3 assms by simp_all
    ultimately show ?thesis by simp
  qed
qed

text \<open>
  A read of the kernel with an odd size returns. A step of \<^verbatim>\<open>applyGaussian\<close> reads the
  component array at \<open>sample_index\<close> and the kernel at \<open>weight_index\<close>; the loops return a
  number or \<^verbatim>\<open>NaN\<close>, and lines 175 to 195 of \<^verbatim>\<open>computeEigenvectors\<close> return a matrix.
\<close>

lemma gaussianKernel_odd:
  "odd (kernelSize st) \<Longrightarrow> \<exists>weights. gaussianKernel Math_exp st = Inr weights"
  by (simp add: gaussianKernel_def generateGaussianKernel_def smod_2_eq_0_iff Let_def)

lemma applyGaussian_step_reads:
  "applyGaussian_step Math_exp st x y componentArray q (Inr sm) =
     (case gaussianKernel Math_exp st of
        Inl e \<Rightarrow> Inl e
      | Inr weights \<Rightarrow>
          Inr (nadd sm (nmul (num_at componentArray (sample_index st x y q))
                             (num_at weights (weight_index st q)))))"
  by (cases q)
    (simp add: applyGaussian_step_def Let_def sample_index_def weight_index_def cong: sum.case_cong)

lemma applyGaussian_returns:
  assumes "odd (kernelSize st)"
  shows "\<exists>v. applyGaussian Math_exp st x y cs = Inr v"
proof -
  obtain weights where w: "gaussianKernel Math_exp st = Inr weights"
    using gaussianKernel_odd [OF assms] by blast
  have "\<exists>v. fold (applyGaussian_step Math_exp st x y cs) os (Inr a) = Inr v" for os a
    by (induction os arbitrary: a) (simp_all add: applyGaussian_step_reads w)
  then show ?thesis by (simp add: applyGaussian_def)
qed

lemma structureTensor_returns:
  assumes "odd (kernelSize st)"
  shows "\<exists>M. fst (structureTensor Math_exp st x y) = Inr M"
proof -
  define st1 where "st1 = snd (array_map (\<lambda>v i. nmul v v) (gradients_Ix st) st)"
  define st2 where "st2 = snd (array_map (\<lambda>v i. nmul v v) (gradients_Iy st1) st1)"
  define st3 where "st3 = snd (array_map (\<lambda>v i. nmul v (num_at (heap st2 (gradients_Iy st2)) i))
                                (gradients_Ix st2) st2)"
  have o: "odd (kernelSize st1)" "odd (kernelSize st2)" "odd (kernelSize st3)"
    using assms by (simp_all add: st1_def st2_def st3_def array_map_fields)
  obtain a where a: "applyGaussian Math_exp st1 x y
       (heap st1 (fst (array_map (\<lambda>v i. nmul v v) (gradients_Ix st) st))) = Inr a"
    using applyGaussian_returns [OF o(1)] by blast
  obtain b where b: "applyGaussian Math_exp st2 x y
       (heap st2 (fst (array_map (\<lambda>v i. nmul v v) (gradients_Iy st1) st1))) = Inr b"
    using applyGaussian_returns [OF o(2)] by blast
  obtain c where c: "applyGaussian Math_exp st3 x y
       (heap st3 (fst (array_map (\<lambda>v i. nmul v (num_at (heap st2 (gradients_Iy st2)) i))
                                 (gradients_Ix st2) st2))) = Inr c"
    using applyGaussian_returns [OF o(3)] by blast
  have "structureTensor Math_exp st x y = (Inr [[a, c], [c, b]], st3)"
    unfolding structureTensor_def split_beta Let_def
      st1_def [symmetric] a sum.case st2_def [symmetric] b st3_def [symmetric] c
    by (rule refl)
  then show ?thesis by simp
qed

text \<open>
  A query point and the point clamped into \<open>[-h, W - 1 + h] \<times> [-h, H - 1 + h]\<close> read the
  same pixels with the same weights.
\<close>

lemma applyGaussian_widened:
  assumes "1 \<le> canvas_width st" "1 \<le> canvas_height st" "0 \<le> kernelSize st div 2"
  shows "applyGaussian Math_exp st
           (min (max x (- (kernelSize st div 2))) (int (canvas_width st) - 1 + kernelSize st div 2))
           (min (max y (- (kernelSize st div 2))) (int (canvas_height st) - 1 + kernelSize st div 2))
           cs
         = applyGaussian Math_exp st x y cs"
proof -
  define h where "h = kernelSize st div 2"
  define x' y' where "x' = min (max x (- h)) (int (canvas_width st) - 1 + h)"
    and "y' = min (max y (- h)) (int (canvas_height st) - 1 + h)"
  have WH: "1 \<le> int (canvas_width st)" "1 \<le> int (canvas_height st)" "0 \<le> h"
    using assms by (simp_all add: h_def)
  have s: "applyGaussian_step Math_exp st x' y' cs q = applyGaussian_step Math_exp st x y cs q"
    if "q \<in> set (kernel_offsets h)" for q
  proof -
    obtain ky kx where q: "q = (ky, kx)" by (cases q)
    have b: "- h \<le> ky" "ky \<le> h" "- h \<le> kx" "kx \<le> h"
      using that by (simp_all add: q set_kernel_offsets)
    have cx: "min (max (x' + kx) 0) (int (canvas_width st) - 1)
                = min (max (x + kx) 0) (int (canvas_width st) - 1)"
      unfolding x'_def using WH(1,3) b(3,4) by (rule clamp_widened)
    have cy: "min (max (y' + ky) 0) (int (canvas_height st) - 1)
                = min (max (y + ky) 0) (int (canvas_height st) - 1)"
      unfolding y'_def using WH(2,3) b(1,2) by (rule clamp_widened)
    show ?thesis
      unfolding applyGaussian_step_def q prod.case cx cy by (rule refl)
  qed
  have "fold (applyGaussian_step Math_exp st x' y' cs) (kernel_offsets h) (Inr (Some 0))
      = fold (applyGaussian_step Math_exp st x y cs) (kernel_offsets h) (Inr (Some 0))"
    by (rule fold_cong [OF refl refl]) (rule s)
  then show ?thesis
    unfolding applyGaussian_def Let_def h_def [symmetric] x'_def [symmetric] y'_def [symmetric] .
qed

lemma structureTensor_widened:
  assumes "1 \<le> canvas_width st" "1 \<le> canvas_height st" "0 \<le> kernelSize st div 2"
  shows "structureTensor Math_exp st
           (min (max x (- (kernelSize st div 2))) (int (canvas_width st) - 1 + kernelSize st div 2))
           (min (max y (- (kernelSize st div 2))) (int (canvas_height st) - 1 + kernelSize st div 2))
         = structureTensor Math_exp st x y"
proof -
  have a: "applyGaussian Math_exp s
             (min (max x (- (kernelSize st div 2))) (int (canvas_width st) - 1 + kernelSize st div 2))
             (min (max y (- (kernelSize st div 2))) (int (canvas_height st) - 1 + kernelSize st div 2))
             cs
           = applyGaussian Math_exp s x y cs"
    if "canvas_width s = canvas_width st" "canvas_height s = canvas_height st"
      "kernelSize s = kernelSize st" for s cs
    using applyGaussian_widened [of s Math_exp x y cs] assms by (simp add: that)
  show ?thesis
    by (simp add: structureTensor_def split_beta Let_def a array_map_fields cong: sum.case_cong)
qed

lemma length_gaussianKernel:
  assumes "gaussianKernel Math_exp st = Inr weights" "0 \<le> kernelSize st"
  shows "int (length weights) = kernelSize st * kernelSize st"
proof -
  have "length (kernel_values Math_exp ksize sigma) = nat ksize * nat ksize" for ksize sigma
    by (simp add: kernel_values_def Let_def length_concat comp_def sum_list_triv)
  then have "length weights = nat (kernelSize st) * nat (kernelSize st)"
    using assms(1)
    by (auto simp: gaussianKernel_def generateGaussianKernel_def Let_def split: if_splits)
  then show ?thesis using assms(2) by simp
qed

text \<open>
  Claim C8, as amended. For every integer query point \<open>(x, y)\<close>, inside the canvas or not,
  computing the structure tensor is not an error, given the gradient arrays of the
  canvas, a canvas of at least one pixel and an odd kernel size from 1 on, whatever the
  sigma: it returns a matrix. Every sampled pixel coordinate is clamped into
  \<open>[0, W - 1] \<times> [0, H - 1]\<close> before the arrays are read, so that every read at
  \<open>sample_index\<close> is inside the arrays of the products, which have the length of the
  gradient arrays, and every read of the kernel, at \<open>weight_index\<close>, is inside the kernel.
  The result is the result at the query point clamped into
  \<open>[-h, W - 1 + h] \<times> [-h, H - 1 + h]\<close>, where \<open>h\<close> is half the kernel size, rounded down.
\<close>

theorem structureTensor_clamped:
  assumes "gradients_ok st" "1 \<le> canvas_width st" "1 \<le> canvas_height st"
    and "odd (kernelSize st)" "1 \<le> kernelSize st"
  shows "(\<exists>M. fst (structureTensor Math_exp st x y) = Inr M)
       \<and> (\<exists>weights. gaussianKernel Math_exp st = Inr weights
            \<and> (\<forall>q\<in>set (kernel_offsets (kernelSize st div 2)).
                  0 \<le> sample_index st x y q
                  \<and> sample_index st x y q < int (length (Ix_array st))
                  \<and> sample_index st x y q < int (length (Iy_array st))
                  \<and> 0 \<le> weight_index st q \<and> weight_index st q < int (length weights)))
       \<and> fst (structureTensor Math_exp st x y)
           = fst (structureTensor Math_exp st
                   (min (max x (- (kernelSize st div 2))) (int (canvas_width st) - 1 + kernelSize st div 2))
                   (min (max y (- (kernelSize st div 2))) (int (canvas_height st) - 1 + kernelSize st div 2)))"
proof (intro conjI)
  show "\<exists>M. fst (structureTensor Math_exp st x y) = Inr M"
    using assms(4) by (rule structureTensor_returns)
  obtain weights where w: "gaussianKernel Math_exp st = Inr weights"
    using gaussianKernel_odd [OF assms(4)] by blast
  have lw: "int (length weights) = kernelSize st * kernelSize st"
    using w assms(5) by (intro length_gaussianKernel) simp_all
  have l: "length (Ix_array st) = canvas_width st * canvas_height st"
    "length (Iy_array st) = canvas_width st * canvas_height st"
    using assms(1) by (simp_all add: gradients_ok_def)
  have "0 \<le> sample_index st x y q \<and> sample_index st x y q < int (length (Ix_array st))
        \<and> sample_index st x y q < int (length (Iy_array st))
        \<and> 0 \<le> weight_index st q \<and> weight_index st q < int (length weights)"
    if "q \<in> set (kernel_offsets (kernelSize st div 2))" for q
    using sample_index_range [OF assms(2,3), of x y q] weight_index_range [OF assms(4,5) that]
    by (simp only: l lw simp_thms)
  then show "\<exists>weights. gaussianKernel Math_exp st = Inr weights
            \<and> (\<forall>q\<in>set (kernel_offsets (kernelSize st div 2)).
                  0 \<le> sample_index st x y q
                  \<and> sample_index st x y q < int (length (Ix_array st))
                  \<and> sample_index st x y q < int (length (Iy_array st))
                  \<and> 0 \<le> weight_index st q \<and> weight_index st q < int (length weights))"
    using w by blast
  have h: "0 \<le> kernelSize st div 2" using assms(5) by simp
  show "fst (structureTensor Math_exp st x y)
           = fst (structureTensor Math_exp st
                   (min (max x (- (kernelSize st div 2))) (int (canvas_width st) - 1 + kernelSize st div 2))
                   (min (max y (- (kernelSize st div 2))) (int (canvas_height st) - 1 + kernelSize st div 2)))"
    by (simp only: structureTensor_widened [OF assms(2,3) h])
qed

text \<open>
  With an odd kernel size in \<open>[1, 51]\<close>, a sigma in \<open>[0.1, 30]\<close> and a \<^verbatim>\<open>Math.exp\<close> that is 1 at
  0 and between 0 and 1 at a negative number, the kernel holds numbers, and the three
  components are numbers in the exact arithmetic of the tensor stage.
\<close>

lemma structureTensor_finite:
  assumes "gradients_ok st" "1 \<le> canvas_width st" "1 \<le> canvas_height st"
    and "odd (kernelSize st)" "1 \<le> kernelSize st" "kernelSize st \<le> 51"
    and "1 / 10 \<le> kernelSigma st" "kernelSigma st \<le> 30"
    and "Math_exp (Finite 0) = Finite 1"
    and "\<forall>r<0. \<exists>e. Math_exp (Finite r) = Finite e \<and> 0 \<le> e \<and> e \<le> 1"
  shows "\<exists>a b d. fst (structureTensor Math_exp st x y) = Inr [[Some a, Some b], [Some b, Some d]]"
proof -
  obtain ws where ws: "gaussianKernel Math_exp st = Inr (map Some ws)"
    "length ws = nat (kernelSize st * kernelSize st)"
    using gaussianKernel_weights [OF assms(4-10)] by blast
  have n: "None \<notin> set (Ix_array st)" "None \<notin> set (Iy_array st)"
    using assms(1) by (simp_all add: gradients_ok_def)
  have cx: "Ix_array st = map Some (map the (Ix_array st))"
    using n(1) by (rule all_Some)
  have cy: "Iy_array st = map Some (map the (Iy_array st))"
    using n(2) by (rule all_Some)
  show ?thesis
    using structureTensor_smoothed [OF assms(1-5) cx cy ws, of x y] by blast
qed

lemma example_state_fields:
  "canvas_width example_state = 10" "canvas_height example_state = 10"
  "kernelSize example_state = 3" "kernelSigma example_state = 1"
  by (simp_all add: example_state_def computeGradients_canvas initial_state_def)

lemma example_state_ok: "gradients_ok example_state"
  unfolding example_state_def
  by (rule computeGradients_ok) (simp add: example_data_def initial_state_def)

lemma uniform_state_fields:
  "canvas_width uniform_state = 2" "canvas_height uniform_state = 2"
  "kernelSize uniform_state = 3" "kernelSigma uniform_state = 1"
  "Ix_array uniform_state = map Some (replicate 4 2)"
  "Iy_array uniform_state = map Some (replicate 4 3)"
  by (simp_all add: uniform_state_def Ix_array_def Iy_array_def)

lemma uniform_state_ok: "gradients_ok uniform_state"
  by (simp add: gradients_ok_def uniform_state_fields) (simp add: uniform_state_def)

text \<open>The kernel that a query reads on a page with the size 3 and the sigma 1.\<close>

lemma example_gaussianKernel:
  assumes "kernelSize st = 3" "kernelSigma st = 1"
  shows "\<exists>ws. gaussianKernel rounded_exp st = Inr (map Some ws)
              \<and> length ws = 9 \<and> (\<forall>w\<in>set ws. 0 < w)"
proof -
  obtain ws where ws: "generateGaussianKernel rounded_exp 3 1 = Inr (map Finite ws)"
    "length ws = 9" "\<forall>w\<in>set ws. 0 < w"
    using example_kernel_positive by blast
  have "gaussianKernel rounded_exp st = Inr (map Some ws)"
    by (simp add: gaussianKernel_def assms ws(1) number_of_double_Finite del: map_map)
  then show ?thesis using ws(2,3) by blast
qed

text \<open>
  On the page with the uniform gradient arrays every query reads \<open>Ix = 2\<close> nine times:
  the component \<open>Ixx\<close> is 4 times the sum of the nine weights, which is positive.
\<close>

lemma uniform_state_tensor:
  "\<exists>a b d. fst (structureTensor rounded_exp uniform_state (- 5) (- 5))
              = Inr [[Some a, Some b], [Some b, Some d]] \<and> 0 < a"
proof -
  obtain ws where ws: "gaussianKernel rounded_exp uniform_state = Inr (map Some ws)"
    "length ws = 9" and pos: "\<forall>w\<in>set ws. 0 < w"
    using example_gaussianKernel [OF uniform_state_fields(3,4)] by blast
  have len: "length ws = nat (kernelSize uniform_state * kernelSize uniform_state)"
    by (simp add: ws(2) uniform_state_fields)
  have p: "1 \<le> canvas_width uniform_state" "1 \<le> canvas_height uniform_state"
    "odd (kernelSize uniform_state)" "1 \<le> kernelSize uniform_state"
    by (simp_all add: uniform_state_fields)
  have "0 < ws ! i" if "i < 9" for i using that pos ws(2) by (simp add: nth_mem)
  then have w: "0 < ws ! 0 + ws ! 1 + ws ! 2 + ws ! 3 + ws ! 4 + ws ! 5 + ws ! 6 + ws ! 7 + ws ! 8"
    by (intro add_pos_pos) simp_all
  have "smoothed uniform_state (- 5) (- 5) (map (\<lambda>c. c * c) (replicate 4 2)) ws
          = 4 * (ws ! 0 + ws ! 1 + ws ! 2 + ws ! 3 + ws ! 4 + ws ! 5 + ws ! 6 + ws ! 7 + ws ! 8)"
    by (simp add: smoothed_def kernel_offsets_1 sample_index_def weight_index_def
        uniform_state_fields)
  then have "0 < smoothed uniform_state (- 5) (- 5) (map (\<lambda>c. c * c) (replicate 4 2)) ws"
    using w by simp
  then show ?thesis
    using structureTensor_smoothed [OF uniform_state_ok p uniform_state_fields(5,6) ws(1) len,
        of "- 5" "- 5"]
    by blast
qed

theorem structureTensor_clamped_witness:
  "(\<exists>M. fst (structureTensor rounded_exp example_state (- 5) (- 5)) = Inr M)
   \<and> fst (structureTensor rounded_exp example_state (- 5) (- 5))
       = fst (structureTensor rounded_exp example_state (- 1) (- 1))
   \<and> (\<exists>a b d. fst (structureTensor rounded_exp uniform_state (- 5) (- 5))
               = Inr [[Some a, Some b], [Some b, Some d]] \<and> 0 < a)
   \<and> fst (structureTensor rounded_exp uniform_state (- 5) (- 5))
       = fst (structureTensor rounded_exp uniform_state (- 1) (- 1))
   \<and> 0 \<le> sample_index uniform_state (- 5) (- 5) (1, 1)
   \<and> sample_index uniform_state (- 5) (- 5) (1, 1) < int (length (Ix_array uniform_state))"
proof -
  have pe: "1 \<le> canvas_width example_state" "1 \<le> canvas_height example_state"
    "odd (kernelSize example_state)" "1 \<le> kernelSize example_state"
    by (simp_all add: example_state_fields)
  have pu: "1 \<le> canvas_width uniform_state" "1 \<le> canvas_height uniform_state"
    "odd (kernelSize uniform_state)" "1 \<le> kernelSize uniform_state"
    by (simp_all add: uniform_state_fields)
  have ce: "min (max (- 5) (- (kernelSize example_state div 2)))
               (int (canvas_width example_state) - 1 + kernelSize example_state div 2) = - 1"
    "min (max (- 5) (- (kernelSize example_state div 2)))
         (int (canvas_height example_state) - 1 + kernelSize example_state div 2) = - 1"
    by (simp_all add: example_state_fields)
  have cu: "min (max (- 5) (- (kernelSize uniform_state div 2)))
               (int (canvas_width uniform_state) - 1 + kernelSize uniform_state div 2) = - 1"
    "min (max (- 5) (- (kernelSize uniform_state div 2)))
         (int (canvas_height uniform_state) - 1 + kernelSize uniform_state div 2) = - 1"
    by (simp_all add: uniform_state_fields)
  note E = structureTensor_clamped [OF example_state_ok pe, of rounded_exp "- 5" "- 5", unfolded ce]
  note U = structureTensor_clamped [OF uniform_state_ok pu, of rounded_exp "- 5" "- 5", unfolded cu]
  have m: "(1, 1) \<in> set (kernel_offsets (kernelSize uniform_state div 2))"
    by (simp add: set_kernel_offsets uniform_state_fields)
  have i: "0 \<le> sample_index uniform_state (- 5) (- 5) (1, 1)
         \<and> sample_index uniform_state (- 5) (- 5) (1, 1) < int (length (Ix_array uniform_state))"
    using U m by blast
  show ?thesis
  proof (intro conjI)
    show "\<exists>M. fst (structureTensor rounded_exp example_state (- 5) (- 5)) = Inr M"
      using E by (rule conjunct1)
    show "fst (structureTensor rounded_exp example_state (- 5) (- 5))
            = fst (structureTensor rounded_exp example_state (- 1) (- 1))"
      by (rule conjunct2 [OF conjunct2 [OF E]])
    show "\<exists>a b d. fst (structureTensor rounded_exp uniform_state (- 5) (- 5))
                   = Inr [[Some a, Some b], [Some b, Some d]] \<and> 0 < a"
      by (rule uniform_state_tensor)
    show "fst (structureTensor rounded_exp uniform_state (- 5) (- 5))
            = fst (structureTensor rounded_exp uniform_state (- 1) (- 1))"
      by (rule conjunct2 [OF conjunct2 [OF U]])
    show "0 \<le> sample_index uniform_state (- 5) (- 5) (1, 1)" using i by (rule conjunct1)
    show "sample_index uniform_state (- 5) (- 5) (1, 1) < int (length (Ix_array uniform_state))"
      using i by (rule conjunct2)
  qed
qed

lemma example_gradients:
  "Ix_array example_state ! 0 = Some 0" "Ix_array example_state ! 1 = Some 0"
  "Ix_array example_state ! 10 = Some 0" "Ix_array example_state ! 11 = Some (- 3)"
proof -
  have a: "Ix_array example_state = fst (gradient_arrays id 10 10 example_data)"
    by (simp add: example_state_def computeGradients_arrays initial_state_def)
  show "Ix_array example_state ! 0 = Some 0"
    using gradient_arrays_border(1) [of 0 10 0 10 id example_data] by (simp add: a)
  show "Ix_array example_state ! 1 = Some 0"
    using gradient_arrays_border(1) [of 1 10 0 10 id example_data] by (simp add: a)
  show "Ix_array example_state ! 10 = Some 0"
    using gradient_arrays_border(1) [of 0 10 1 10 id example_data] by (simp add: a)
  have "length example_data = 4 * 10 * 10" by (simp add: example_data_def)
  then have "sobel_at id (int 10) example_data 1 1 =
      (Some (\<Sum>ky\<in>{-1..1}. \<Sum>kx\<in>{-1..1}. luminance id 10 example_data (1 + kx) (1 + ky) * Sx kx ky),
       Some (\<Sum>ky\<in>{-1..1}. \<Sum>kx\<in>{-1..1}. luminance id 10 example_data (1 + kx) (1 + ky) * Sy kx ky))"
    by (rule sobel_at_exact) simp_all
  then show "Ix_array example_state ! 11 = Some (- 3)"
    using gradient_arrays_interior(1) [of 1 10 1 10 id example_data]
    by (simp add: a example_luminance int_interval Sx_def)
qed

text \<open>
  The claim as stated fails. On the example canvas of 10 by 10 pixels with the kernel
  size 3, the query at \<open>(-5, -5)\<close> reads the pixel \<open>(0, 0)\<close> nine times, where the gradient
  is 0, and the query at \<open>(0, 0)\<close> reads the pixel \<open>(1, 1)\<close> too, where \<open>Ix = -3\<close>, with a
  weight that is positive: the two matrices differ.
\<close>

theorem structureTensor_not_clamped_to_canvas:
  "fst (structureTensor rounded_exp example_state (- 5) (- 5))
     \<noteq> fst (structureTensor rounded_exp example_state 0 0)"
proof -
  have p: "1 \<le> canvas_width example_state" "1 \<le> canvas_height example_state"
    "odd (kernelSize example_state)" "1 \<le> kernelSize example_state"
    by (simp_all add: example_state_fields)
  obtain ws where ws9: "gaussianKernel rounded_exp example_state = Inr (map Some ws)"
    "length ws = 9" and pos: "\<forall>w\<in>set ws. 0 < w"
    using example_gaussianKernel [OF example_state_fields(3,4)] by blast
  have ws: "gaussianKernel rounded_exp example_state = Inr (map Some ws)"
    "length ws = nat (kernelSize example_state * kernelSize example_state)"
    using ws9 by (simp_all add: example_state_fields)
  define cx cy where "cx = map the (Ix_array example_state)" and "cy = map the (Iy_array example_state)"
  have n: "None \<notin> set (Ix_array example_state)" "None \<notin> set (Iy_array example_state)"
    and len: "length (Ix_array example_state) = 100"
    using example_state_ok by (simp_all add: gradients_ok_def example_state_fields)
  have ix: "Ix_array example_state = map Some cx" unfolding cx_def using n(1) by (rule all_Some)
  have iy: "Iy_array example_state = map Some cy" unfolding cy_def using n(2) by (rule all_Some)
  have c: "cx ! 0 = 0" "cx ! 1 = 0" "cx ! 10 = 0" "cx ! 11 = - 3"
    using example_gradients len by (simp_all add: cx_def)
  have c1: "cx ! Suc 0 = 0" using c(2) by simp
  have lcx: "length cx = 100" using len by (simp add: cx_def)
  note off = kernel_offsets_1
  have A: "smoothed example_state (- 5) (- 5) (map (\<lambda>c. c * c) cx) ws = 0"
    by (simp add: smoothed_def off sample_index_def weight_index_def example_state_fields lcx c)
  have B: "smoothed example_state 0 0 (map (\<lambda>c. c * c) cx) ws = 9 * ws ! 8"
    by (simp add: smoothed_def off sample_index_def weight_index_def example_state_fields lcx c c1)
  have "8 < length ws" by (simp add: ws9(2))
  then have "0 < ws ! 8" using pos by (simp add: nth_mem)
  then have "smoothed example_state (- 5) (- 5) (map (\<lambda>c. c * c) cx) ws
             \<noteq> smoothed example_state 0 0 (map (\<lambda>c. c * c) cx) ws"
    by (simp add: A B)
  then show ?thesis
    by (simp add: structureTensor_smoothed [OF example_state_ok p(1-4) ix iy ws])
qed

subsection \<open>A sigma below the range\<close>

text \<open>
  The bounds on sigma in the lemma on the components are needed. With the sigma
  \<open>10\<^sup>-\<^sup>2\<^sup>0\<^sup>0\<close> the kernel holds \<^verbatim>\<open>NaN\<close> only, and so does the matrix of every query: no
  exception is thrown, and no component is a number.
\<close>

lemma num_at_replicate_None: "num_at (replicate n None) i = None"
  by (simp add: num_at_def js_at_def nat_less_iff)

lemma applyGaussian_step_None:
  assumes "gaussianKernel Math_exp st = Inr (replicate n None)"
  shows "fold (applyGaussian_step Math_exp st x y cs) os (Inr None) = Inr None"
  by (induction os)
    (simp_all add: applyGaussian_step_def assms Let_def split_beta num_at_replicate_None
      nadd_def nmul_def)

lemma applyGaussian_None:
  assumes "gaussianKernel Math_exp st = Inr (replicate n None)" "0 \<le> kernelSize st div 2"
  shows "applyGaussian Math_exp st x y cs = Inr None"
proof -
  define h where "h = kernelSize st div 2"
  have "[- h..h] = - h # [- h + 1..h]" using assms(2) by (simp add: h_def upto_rec1)
  then obtain os where os: "kernel_offsets h = (- h, - h) # os"
    by (simp add: kernel_offsets_def)
  have "applyGaussian_step Math_exp st x y cs (- h, - h) (Inr (Some 0)) = Inr None"
    by (simp add: applyGaussian_step_def assms(1) Let_def num_at_replicate_None nadd_def nmul_def)
  then show ?thesis
    using applyGaussian_step_None [OF assms(1), of x y cs os]
    by (simp add: applyGaussian_def Let_def os flip: h_def)
qed

lemma structureTensor_tiny_sigma:
  assumes "odd (kernelSize st)" "1 \<le> kernelSize st" "kernelSigma st = 1 / 10 ^ 200"
  shows "fst (structureTensor rounded_exp st x y) = Inr [[None, None], [None, None]]"
proof -
  define n where "n = nat (kernelSize st) * nat (kernelSize st)"
  have h: "0 \<le> kernelSize st div 2" using assms(2) by simp
  have g: "gaussianKernel rounded_exp s = Inr (replicate n None)"
    if "kernelSize s = kernelSize st" "kernelSigma s = kernelSigma st" for s
    unfolding gaussianKernel_def that assms(3) kernel_tiny_sigma [OF assms(1)]
    by (simp add: number_of_double_def n_def)
  have a: "applyGaussian rounded_exp s x y cs = Inr None"
    if "kernelSize s = kernelSize st" "kernelSigma s = kernelSigma st" for s cs
    using applyGaussian_None [OF g [OF that]] h that by simp
  show ?thesis
    by (simp add: structureTensor_def split_beta Let_def a array_map_fields)
qed

section \<open>Properties of the display\<close>

lemma digits_5_10: "digits 5 = ''5''" "digits 10 = ''10''"
  by code_simp+

lemma integer_string_5_10: "integer_string 5 = ''5''" "integer_string 10 = ''10''"
  by (simp_all add: integer_string_def digits_5_10)

lemma string_10_less_5: "''10'' < ''5''" "''10'' \<le> ''5''" "\<not> ''5'' \<le> ''10''"
  by (simp_all add: less_char_def less_eq_char_def)

lemma sort_5_10:
  "sort_key (js_toString integer_string) [Some 5, Some 10] = [Some 10, Some 5]"
  "sort_key (js_toString integer_string) [Some 10, Some 5] = [Some 10, Some 5]"
  by (simp_all add: js_toString_def integer_string_5_10 string_10_less_5)

lemma toFixed_5_10: "toFixed tostr (Some 5) = ''5''" "toFixed tostr (Some 10) = ''10''"
proof -
  have "\<lfloor>5 + 1 / 2 :: real\<rfloor> = 5" "\<lfloor>10 + 1 / 2 :: real\<rfloor> = 10" by linarith+
  then show "toFixed tostr (Some 5) = ''5''" "toFixed tostr (Some 10) = ''10''"
    by (simp_all add: toFixed_def digits_5_10)
qed

text \<open>
  The display for the eigenvalues 5000 and 10000. The scaled eigenvalues are 5 and 10;
  \<^verbatim>\<open>sort()\<close> orders them as the strings \<^verbatim>\<open>"10"\<close> and \<^verbatim>\<open>"5"\<close>, and leaves the array
  \<^verbatim>\<open>eigenvalues\<close> in that order.
\<close>

lemma drawOverlay_render_example:
  "snd (drawOverlay_render Math_exp integer_string example_eigenvectors st x y) =
     st\<lparr>heap := (heap st)(next_ref st := [Some 10, Some 5]), next_ref := Suc (next_ref st),
        lambda1 := ''5'', lambda2 := ''10''\<rparr>"
  "odd (kernelSize st) \<Longrightarrow>
   fst (drawOverlay_render Math_exp integer_string example_eigenvectors st x y) =
     Inr [(Some (of_int x + 10), Some (of_int y)), (Some (of_int x), Some (of_int y + 5))]"
proof -
  have a: "new_array (map (\<lambda>vec. ndiv (eig_value vec) (Some 1000)) example_eigenvectors) st =
             (next_ref st, st\<lparr>heap := (heap st)(next_ref st := [Some 5, Some 10]),
                               next_ref := Suc (next_ref st)\<rparr>)"
    by (simp add: new_array_def example_eigenvectors_def ndiv_def)
  show "snd (drawOverlay_render Math_exp integer_string example_eigenvectors st x y) =
     st\<lparr>heap := (heap st)(next_ref st := [Some 10, Some 5]), next_ref := Suc (next_ref st),
        lambda1 := ''5'', lambda2 := ''10''\<rparr>"
    unfolding drawOverlay_render_def a
    by (simp add: array_sort_def js_toString_def integer_string_5_10 string_10_less_5 js_at_def
        toFixed_5_10 Let_def split: sum.splits)
  show "fst (drawOverlay_render Math_exp integer_string example_eigenvectors st x y) =
     Inr [(Some (of_int x + 10), Some (of_int y)), (Some (of_int x), Some (of_int y + 5))]"
    if "odd (kernelSize st)"
  proof -
    have g: "gaussianKernel Math_exp s \<noteq> Inl e" if "odd (kernelSize s)" for s e
      using that
      by (simp add: gaussianKernel_def generateGaussianKernel_def smod_2_eq_0_iff Let_def)
    show ?thesis
      unfolding drawOverlay_render_def a using that
      by (simp add: array_sort_def js_toString_def integer_string_5_10 string_10_less_5 js_at_def
          toFixed_5_10 Let_def num_at_def example_eigenvectors_def nadd_def nmul_def upt_rec g
          split: sum.splits)
  qed
qed

text \<open>
  Claim C1 asks that the display has \<open>lambda1 \<ge> lambda2\<close>, the larger and the smaller of
  the two scaled eigenvalues. The page does not meet it: for the eigenvalues 5000 and
  10000 it displays \<^verbatim>\<open>lambda1 = "5"\<close> and \<^verbatim>\<open>lambda2 = "10"\<close>, whatever the state and the
  query point.
\<close>

theorem display_orders_by_string:
  "lambda1 (snd (drawOverlay_render Math_exp integer_string example_eigenvectors st x y)) = ''5''
   \<and> lambda2 (snd (drawOverlay_render Math_exp integer_string example_eigenvectors st x y)) = ''10''"
  by (simp add: drawOverlay_render_example)

text \<open>
  Claim C2 asks that each eigenvector is drawn scaled by the eigenvalue it came with.
  The page does not meet it: \<^verbatim>\<open>eigenvalues[i]\<close> is read after \<^verbatim>\<open>sort()\<close> has reordered the
  array. For the eigenvalues 5000 and 10000 and the query point \<open>(3, 4)\<close> the arrow of the
  eigenvector \<open>(1, 0)\<close>, which came with 5000, ends at \<open>(3 + 10, 4)\<close>, and the arrow of
  \<open>(0, 1)\<close>, which came with 10000, ends at \<open>(3, 4 + 5)\<close>.
\<close>

theorem arrows_scaled_by_sorted_eigenvalues:
  "fst (drawOverlay_render Math_exp integer_string example_eigenvectors example_state 3 4)
     = Inr [(Some 13, Some 4), (Some 3, Some 9)]"
  by (simp add: drawOverlay_render_example example_state_def computeGradients_def
      initial_state_def new_array_def split_beta Let_def)

section \<open>Properties of the eigensolver of the specification\<close>

lemma discriminant_nonneg: "0 \<le> (a + d)\<^sup>2 / 4 - (a * d - b\<^sup>2)" for a b d :: real
proof -
  have e: "(a + d)\<^sup>2 / 4 - (a * d - b\<^sup>2) = (a - d)\<^sup>2 / 4 + b\<^sup>2"
    by (simp add: power2_eq_square field_simps)
  have "0 \<le> (a - d)\<^sup>2 / 4 + b\<^sup>2" by simp
  then show ?thesis by (simp only: e)
qed

lemma normalize_unit:
  assumes "fst v \<noteq> 0"
  shows "(fst (normalize v))\<^sup>2 + (snd (normalize v))\<^sup>2 = 1"
proof -
  define s where "s = (fst v)\<^sup>2 + (snd v)\<^sup>2"
  have p: "0 < s" using assms by (simp add: s_def sum_power2_gt_zero_iff)
  have "(fst (normalize v))\<^sup>2 + (snd (normalize v))\<^sup>2
          = (fst v)\<^sup>2 / (sqrt s)\<^sup>2 + (snd v)\<^sup>2 / (sqrt s)\<^sup>2"
    by (simp only: normalize_def fst_conv snd_conv power_divide s_def)
  also have "\<dots> = s / (sqrt s)\<^sup>2"
    by (simp only: add_divide_distrib s_def)
  also have "\<dots> = 1" using p by simp
  finally show ?thesis .
qed

lemma normalize_orthogonal:
  assumes "fst u * fst v + snd u * snd v = 0"
  shows "fst (normalize u) * fst (normalize v) + snd (normalize u) * snd (normalize v) = 0"
proof -
  have "fst (normalize u) * fst (normalize v) + snd (normalize u) * snd (normalize v)
          = (fst u * fst v + snd u * snd v)
            / (sqrt ((fst u)\<^sup>2 + (snd u)\<^sup>2) * sqrt ((fst v)\<^sup>2 + (snd v)\<^sup>2))"
    by (simp add: normalize_def add_divide_distrib)
  then show ?thesis using assms by simp
qed

text \<open>
  Claim C7. For every symmetric matrix \<open>[[a, b], [b, d]]\<close> the eigensolver returns two
  eigenvalues whose sum is the trace and whose product is the determinant, and two
  eigenvectors of length 1 whose dot product is 0. (The arithmetic of the model is
  exact, so the equations hold exactly.)
\<close>

theorem SymmetricEigensolver2x2_trace_det_orthonormal:
  "\<exists>l1 v1 l2 v2.
     SymmetricEigensolver2x2 a b d = [(l1, v1), (l2, v2)]
     \<and> l1 + l2 = a + d
     \<and> l1 * l2 = a * d - b\<^sup>2
     \<and> (fst v1)\<^sup>2 + (snd v1)\<^sup>2 = 1
     \<and> (fst v2)\<^sup>2 + (snd v2)\<^sup>2 = 1
     \<and> fst v1 * fst v2 + snd v1 * snd v2 = 0"
proof -
  define disc where "disc = sqrt (max ((a + d)\<^sup>2 / 4 - (a * d - b\<^sup>2)) 0)"
  define l1 l2 where "l1 = (a + d) / 2 + disc" and "l2 = (a + d) / 2 - disc"
  have disc2: "disc\<^sup>2 = (a + d)\<^sup>2 / 4 - (a * d - b\<^sup>2)"
    using discriminant_nonneg [of a d b] by (simp add: disc_def max_def)
  have sum: "l1 + l2 = a + d"
    by (simp add: l1_def l2_def)
  have "l1 * l2 = ((a + d) / 2)\<^sup>2 - disc\<^sup>2"
    by (simp add: l1_def l2_def power2_eq_square algebra_simps)
  then have prod: "l1 * l2 = a * d - b\<^sup>2"
    by (simp add: disc2 power_divide)
  have "b * b + (l1 - a) * (l2 - a) = b\<^sup>2 + l1 * l2 - a * (l1 + l2) + a\<^sup>2"
    by (simp add: power2_eq_square algebra_simps)
  then have orth: "b * b + (l1 - a) * (l2 - a) = 0"
    by (simp add: sum prod power2_eq_square algebra_simps)
  have S: "SymmetricEigensolver2x2 a b d =
             (if b \<noteq> 0 then [(l1, normalize (b, l1 - a)), (l2, normalize (b, l2 - a))]
              else if d \<le> a then [(l1, (1, 0)), (l2, (0, 1))]
              else [(l1, (0, 1)), (l2, (1, 0))])"
    by (simp add: SymmetricEigensolver2x2_def Let_def disc_def l1_def l2_def)
  show ?thesis
  proof (cases "b = 0")
    case True
    have "SymmetricEigensolver2x2 a b d = [(l1, (1, 0)), (l2, (0, 1))]
          \<or> SymmetricEigensolver2x2 a b d = [(l1, (0, 1)), (l2, (1, 0))]"
      unfolding S using True by simp
    then show ?thesis
      using sum prod by fastforce
  next
    case False
    have "SymmetricEigensolver2x2 a b d = [(l1, normalize (b, l1 - a)), (l2, normalize (b, l2 - a))]"
      using False by (simp add: S)
    moreover have "(fst (normalize (b, l1 - a)))\<^sup>2 + (snd (normalize (b, l1 - a)))\<^sup>2 = 1"
      "(fst (normalize (b, l2 - a)))\<^sup>2 + (snd (normalize (b, l2 - a)))\<^sup>2 = 1"
      using False by (simp_all add: normalize_unit)
    moreover have "fst (normalize (b, l1 - a)) * fst (normalize (b, l2 - a))
                   + snd (normalize (b, l1 - a)) * snd (normalize (b, l2 - a)) = 0"
      using orth by (intro normalize_orthogonal) simp
    ultimately show ?thesis using sum prod by blast
  qed
qed

end
